theory Spec2Isabelle
  imports Main "HOL-Library.Multiset" "HOL-Library.Sublist"
begin

section \<open>The OnlyOffice command service client\<close>

text \<open>
  A shallow embedding of \<open>onlyoffice.service.ts\<close>. Every \<open>async\<close> method becomes
  a function from the state of the outside world to an outcome and the new state; a
  rejected promise (a \<open>throw\<close>) is the \<open>Inl\<close> branch of the outcome. The log
  statements are fire-and-forget and are left out.
\<close>

subsection \<open>Error codes\<close>

datatype ErrorCode =
    SUCCESS
  | KEY_MISSING_OR_DOC_NOT_FOUND
  | INVALID_CALLBACK_URL
  | INTERNAL_SERVER_ERROR
  | FORCE_SAVE_BUT_NO_CHANGES_TO_APPLY
  | COMMAND_NOT_CORRECT
  | INVALID_TOKEN

text \<open>The number a member of the enum is at run time.\<close>

fun ErrorCode_value :: "ErrorCode \<Rightarrow> int" where
  "ErrorCode_value SUCCESS = 0"
| "ErrorCode_value KEY_MISSING_OR_DOC_NOT_FOUND = 1"
| "ErrorCode_value INVALID_CALLBACK_URL = 2"
| "ErrorCode_value INTERNAL_SERVER_ERROR = 3"
| "ErrorCode_value FORCE_SAVE_BUT_NO_CHANGES_TO_APPLY = 4"
| "ErrorCode_value COMMAND_NOT_CORRECT = 5"
| "ErrorCode_value INVALID_TOKEN = 6"

fun ErrorCode_name :: "ErrorCode \<Rightarrow> string" where
  "ErrorCode_name SUCCESS = ''SUCCESS''"
| "ErrorCode_name KEY_MISSING_OR_DOC_NOT_FOUND = ''KEY_MISSING_OR_DOC_NOT_FOUND''"
| "ErrorCode_name INVALID_CALLBACK_URL = ''INVALID_CALLBACK_URL''"
| "ErrorCode_name INTERNAL_SERVER_ERROR = ''INTERNAL_SERVER_ERROR''"
| "ErrorCode_name FORCE_SAVE_BUT_NO_CHANGES_TO_APPLY = ''FORCE_SAVE_BUT_NO_CHANGES_TO_APPLY''"
| "ErrorCode_name COMMAND_NOT_CORRECT = ''COMMAND_NOT_CORRECT''"
| "ErrorCode_name INVALID_TOKEN = ''INVALID_TOKEN''"

definition ErrorCode_members :: "ErrorCode list" where
  "ErrorCode_members =
     [SUCCESS, KEY_MISSING_OR_DOC_NOT_FOUND, INVALID_CALLBACK_URL, INTERNAL_SERVER_ERROR,
      FORCE_SAVE_BUT_NO_CHANGES_TO_APPLY, COMMAND_NOT_CORRECT, INVALID_TOKEN]"

text \<open>The enum as the table of its named members, in declaration order.\<close>

definition ErrorCode_table :: "(string \<times> int) list" where
  "ErrorCode_table = map (\<lambda>e. (ErrorCode_name e, ErrorCode_value e)) ErrorCode_members"

subsection \<open>Decimal rendering of a number\<close>

fun showNat :: "nat \<Rightarrow> string" where
  "showNat n =
     (if n < 10 then [''0123456789'' ! n]
      else showNat (n div 10) @ [''0123456789'' ! (n mod 10)])"

definition showInt :: "int \<Rightarrow> string" where
  "showInt i = (if i < 0 then CHR ''-'' # showNat (nat (- i)) else showNat (nat i))"

subsection \<open>The label of an error code\<close>

text \<open>
  Modelled from the spec: \<open>Utils.getKeyForValueSafe\<close> (module \<open>@/utils\<close>) is not
  among the sources. The spec describes it as a best-effort enumeration lookup, an
  explicit mapping table from integer to label with an explicit fallback branch for
  unmapped integers, which yields a generic "unrecognized code" description rather than
  failing the lookup itself.
\<close>

definition unrecognizedValue :: "string \<Rightarrow> int \<Rightarrow> string" where
  "unrecognizedValue objName v = ''unrecognized '' @ objName @ '' code '' @ showInt v"

definition getKeyForValueSafe :: "int \<Rightarrow> (string \<times> int) list \<Rightarrow> string \<Rightarrow> string" where
  "getKeyForValueSafe v obj objName =
     (case find (\<lambda>entry. snd entry = v) obj of
        Some entry \<Rightarrow> fst entry
      | None \<Rightarrow> unrecognizedValue objName v)"

definition ErrorCodeFromValue :: "int \<Rightarrow> string" where
  "ErrorCodeFromValue v = getKeyForValueSafe v ErrorCode_table ''OnlyOffice.ErrorCode''"

subsection \<open>Requests and responses of the command service\<close>

text \<open>One constructor per \<open>Request\<close> class of the namespace \<open>CommandService\<close>.\<close>

datatype request =
    VersionRequest
  | ForceSaveRequest string string
  | GetForgottenRequest string
  | GetForgottenListRequest
  | DeleteForgottenRequest string
  | LicenseRequest

text \<open>The field \<open>c\<close> that each constructor passes to \<open>BaseRequest\<close>.\<close>

fun request_c :: "request \<Rightarrow> string" where
  "request_c VersionRequest = ''version''"
| "request_c (ForceSaveRequest k userdata) = ''forcesave''"
| "request_c (GetForgottenRequest k) = ''getForgotten''"
| "request_c GetForgottenListRequest = ''getForgottenList''"
| "request_c (DeleteForgottenRequest k) = ''deleteForgotten''"
| "request_c LicenseRequest = ''license''"

datatype json = JNull | JNumber int | JString string | JArray "json list"
  | JObject "(string \<times> json) list"

text \<open>
  The body of a response: the \<open>error\<close> field of \<open>BaseResponse\<close>, which is a plain
  number on the wire, and the fields of the \<open>Response\<close> interfaces.
\<close>

record response =
  error :: int
  version :: string
  key :: string
  url :: string
  keys :: "string list"
  license :: json
  server :: json
  quota :: json

text \<open>
  \<open>CommandError\<close>: the public field \<open>errorCode\<close>, and the parts its message is
  interpolated from (the label of the code, the request and the response).
\<close>

record CommandError =
  errorCode :: int
  errorLabel :: string
  requested :: request
  got :: response

definition new_CommandError :: "int \<Rightarrow> request \<Rightarrow> response \<Rightarrow> CommandError" where
  "new_CommandError code rq rs =
     \<lparr>errorCode = code, errorLabel = ErrorCodeFromValue code, requested = rq, got = rs\<rparr>"

text \<open>
  What a rejected promise carries: the rejection of \<open>axios.post\<close>, a
  \<open>CommandError\<close>, or whatever the caller's processor threw.
\<close>

datatype failure =
    TransportFailure string
  | CommandFailure CommandError
  | ProcessorFailure string

subsection \<open>The outside world\<close>

text \<open>
  The calls that leave the service and what came back: a request posted to the command
  service with the outcome of \<open>axios.post\<close>, and an invocation of the processor on a
  key and a URL with its outcome.
\<close>

datatype event =
    Posted request "string + response"
  | Processed string string "string + bool"

record 's world =
  remote :: 's
  calls :: "event list"

text \<open>
  \<open>axios.post\<close> on the command service endpoint: any function of the state of the
  remote side and the request, which either rejects or delivers a response body.
\<close>

type_synonym 's transport = "'s \<Rightarrow> request \<Rightarrow> (string + response) \<times> 's"

text \<open>The caller's processor: it may act on the remote side, and it may throw.\<close>

type_synonym 's processor = "string \<Rightarrow> string \<Rightarrow> 's \<Rightarrow> (string + bool) \<times> 's"

type_synonym ('s, 'a) async = "'s world \<Rightarrow> (failure + 'a) \<times> 's world"

text \<open>\<open>await m\<close> followed by the rest of the function; a rejection ends it.\<close>

definition await :: "('s, 'a) async \<Rightarrow> ('a \<Rightarrow> ('s, 'b) async) \<Rightarrow> ('s, 'b) async" where
  "await m f w = (case m w of (Inl e, w') \<Rightarrow> (Inl e, w') | (Inr x, w') \<Rightarrow> f x w')"

definition resolve :: "'a \<Rightarrow> ('s, 'a) async" where
  "resolve x w = (Inr x, w)"

definition reject :: "failure \<Rightarrow> ('s, 'a) async" where
  "reject e w = (Inl e, w)"

text \<open>\<open>promise.then(f)\<close> for a function \<open>f\<close> that only reads a field.\<close>

definition then_field :: "('s, 'a) async \<Rightarrow> ('a \<Rightarrow> 'b) \<Rightarrow> ('s, 'b) async" where
  "then_field m f = await m (\<lambda>x. resolve (f x))"

subsection \<open>Command transport\<close>

definition postUnsafe :: "'s transport \<Rightarrow> request \<Rightarrow> ('s, response) async" where
  "postUnsafe axios_post rq w =
     (case axios_post (remote w) rq of
        (out, s') \<Rightarrow>
          (case out of Inl msg \<Rightarrow> Inl (TransportFailure msg) | Inr result \<Rightarrow> Inr result,
           \<lparr>remote = s', calls = calls w @ [Posted rq out]\<rparr>))"

definition post :: "'s transport \<Rightarrow> request \<Rightarrow> ('s, response) async" where
  "post axios_post rq =
     await (postUnsafe axios_post rq) (\<lambda>result.
       if error result = ErrorCode_value SUCCESS then resolve result
       else reject (CommandFailure (new_CommandError (error result) rq result)))"

subsection \<open>The methods of the service\<close>

definition getVersion :: "'s transport \<Rightarrow> ('s, string) async" where
  "getVersion axios_post = then_field (post axios_post VersionRequest) version"

definition getLicense :: "'s transport \<Rightarrow> ('s, response) async" where
  "getLicense axios_post = post axios_post LicenseRequest"

definition forceSave :: "'s transport \<Rightarrow> string \<Rightarrow> string \<Rightarrow> ('s, string) async" where
  "forceSave axios_post k userdata = then_field (post axios_post (ForceSaveRequest k userdata)) key"

definition getForgottenList :: "'s transport \<Rightarrow> ('s, string list) async" where
  "getForgottenList axios_post = then_field (post axios_post GetForgottenListRequest) keys"

definition getForgotten :: "'s transport \<Rightarrow> string \<Rightarrow> ('s, string) async" where
  "getForgotten axios_post k = then_field (post axios_post (GetForgottenRequest k)) url"

definition deleteForgotten :: "'s transport \<Rightarrow> string \<Rightarrow> ('s, string) async" where
  "deleteForgotten axios_post k = then_field (post axios_post (DeleteForgottenRequest k)) key"

subsection \<open>Shuffling\<close>

text \<open>
  Modelled from the spec: \<open>Utils.fisherYattesShuffleInPlace\<close> (module \<open>@/utils\<close>)
  is not among the sources. The spec describes it as a uniform in-place shuffle
  (Fisher--Yates): the index \<open>i\<close> runs from the last position down to 1, a position
  \<open>j\<close> among \<open>0..i\<close> is drawn at random, and the elements at \<open>i\<close> and \<open>j\<close> are
  exchanged. The randomness is an input: \<open>rnd i\<close> is the number drawn when the index
  is \<open>i\<close>, reduced into \<open>0..i\<close>.
\<close>

definition swap :: "nat \<Rightarrow> nat \<Rightarrow> 'a list \<Rightarrow> 'a list" where
  "swap i j xs = xs[i := xs ! j, j := xs ! i]"

fun fisherYattesLoop :: "(nat \<Rightarrow> nat) \<Rightarrow> nat \<Rightarrow> 'a list \<Rightarrow> 'a list" where
  "fisherYattesLoop rnd 0 xs = xs"
| "fisherYattesLoop rnd (Suc i) xs =
     fisherYattesLoop rnd i (swap (Suc i) (rnd (Suc i) mod Suc (Suc i)) xs)"

definition fisherYattesShuffleInPlace :: "(nat \<Rightarrow> nat) \<Rightarrow> 'a list \<Rightarrow> 'a list" where
  "fisherYattesShuffleInPlace rnd xs = fisherYattesLoop rnd (length xs - 1) xs"

subsection \<open>Reconciling the forgotten files\<close>

text \<open>The call \<open>processor(forgottenFileKey, forgottenFileURL)\<close>, awaited.\<close>

definition invoke :: "'s processor \<Rightarrow> string \<Rightarrow> string \<Rightarrow> ('s, bool) async" where
  "invoke processor k u w =
     (case processor k u (remote w) of
        (out, s') \<Rightarrow>
          (case out of Inl msg \<Rightarrow> Inl (ProcessorFailure msg) | Inr b \<Rightarrow> Inr b,
           \<lparr>remote = s', calls = calls w @ [Processed k u out]\<rparr>))"

text \<open>The \<open>for ... of\<close> loop of \<open>processForgotten\<close>, with the counter \<open>deleted\<close>.\<close>

fun forgottenLoop :: "'s transport \<Rightarrow> 's processor \<Rightarrow> string list \<Rightarrow> nat \<Rightarrow> ('s, nat) async" where
  "forgottenLoop axios_post processor [] deleted = resolve deleted"
| "forgottenLoop axios_post processor (forgottenFileKey # rest) deleted =
     await (getForgotten axios_post forgottenFileKey) (\<lambda>forgottenFileURL.
     await (invoke processor forgottenFileKey forgottenFileURL) (\<lambda>shouldDelete.
       if shouldDelete then
         await (deleteForgotten axios_post forgottenFileKey) (\<lambda>_.
           forgottenLoop axios_post processor rest (deleted + 1))
       else forgottenLoop axios_post processor rest deleted))"

definition processForgotten ::
  "'s transport \<Rightarrow> 's processor \<Rightarrow> (nat \<Rightarrow> nat) \<Rightarrow> ('s, nat) async" where
  "processForgotten axios_post processor rnd =
     await (getForgottenList axios_post) (\<lambda>forgottenFiles.
       if length forgottenFiles = 0 then resolve 0
       else forgottenLoop axios_post processor
              (fisherYattesShuffleInPlace rnd forgottenFiles) 0)"

subsection \<open>The polled licence\<close>

text \<open>
  Modelled from the spec: the class \<open>PolledThingieValue\<close>
  (module \<open>@/lib/polled-thingie-value\<close>) is not among the sources. The spec describes
  it as holding a label, the last value or an absent marker, the timestamp of the last
  refresh and the refresh period. Each refresh invokes the producer; on success it
  replaces the cached value and the timestamp; on failure the previous cached value is
  retained, and the failure is logged but never thrown. \<open>latest\<close> returns the most
  recently successfully produced value, or the absent marker.
\<close>

record 'v PolledThingieValue =
  label :: string
  period :: nat
  lastValue :: "'v option"
  lastRefreshTimestamp :: "nat option"

definition new_PolledThingieValue :: "string \<Rightarrow> nat \<Rightarrow> 'v PolledThingieValue" where
  "new_PolledThingieValue lbl periodMS =
     \<lparr>label = lbl, period = periodMS, lastValue = None, lastRefreshTimestamp = None\<rparr>"

definition latest :: "'v PolledThingieValue \<Rightarrow> 'v option" where
  "latest p = lastValue p"

text \<open>One refresh at time \<open>now\<close>, in the world \<open>w\<close>.\<close>

definition refresh ::
  "('s, 'v) async \<Rightarrow> nat \<Rightarrow> 'v PolledThingieValue \<Rightarrow> 's world \<Rightarrow> 'v PolledThingieValue \<times> 's world" where
  "refresh producer now p w =
     (case producer w of
        (Inl e, w') \<Rightarrow> (p, w')
      | (Inr v, w') \<Rightarrow> (p\<lparr>lastValue := Some v, lastRefreshTimestamp := Some now\<rparr>, w'))"

text \<open>The service: its only field is the poller, whose producer is \<open>getLicense\<close>.\<close>

record OnlyOfficeService =
  poller :: "response PolledThingieValue"

definition new_OnlyOfficeService :: "nat \<Rightarrow> OnlyOfficeService" where
  "new_OnlyOfficeService onlyOfficeConnectivityCheckPeriodMS =
     \<lparr>poller = new_PolledThingieValue ''Connect to Only Office'' onlyOfficeConnectivityCheckPeriodMS\<rparr>"

definition getLatestLicence :: "OnlyOfficeService \<Rightarrow> response option" where
  "getLatestLicence svc = latest (poller svc)"

text \<open>
  The refresh loop of the poller runs beside every other task, so the world in which a
  refresh starts is whatever the other tasks left: a finite stretch of the loop is the
  list of its refreshes, each with its time and the world it starts in.
\<close>

definition pollOnce :: "'s transport \<Rightarrow> OnlyOfficeService \<Rightarrow> nat \<times> 's world \<Rightarrow> OnlyOfficeService" where
  "pollOnce axios_post svc tick =
     svc\<lparr>poller := fst (refresh (getLicense axios_post) (fst tick) (poller svc) (snd tick))\<rparr>"

definition pollLoop :: "'s transport \<Rightarrow> OnlyOfficeService \<Rightarrow> (nat \<times> 's world) list \<Rightarrow> OnlyOfficeService" where
  "pollLoop axios_post svc ticks = foldl (pollOnce axios_post) svc ticks"

subsection \<open>Reading a trace of calls\<close>

text \<open>
  The failure a call ends in, if any: a rejected \<open>axios.post\<close>, a response whose
  \<open>error\<close> is not \<open>SUCCESS\<close>, or a processor that threw.
\<close>

fun eventFailure :: "event \<Rightarrow> failure option" where
  "eventFailure (Posted rq (Inl msg)) = Some (TransportFailure msg)"
| "eventFailure (Posted rq (Inr result)) =
     (if error result = 0 then None
      else Some (CommandFailure (new_CommandError (error result) rq result)))"
| "eventFailure (Processed k u (Inl msg)) = Some (ProcessorFailure msg)"
| "eventFailure (Processed k u (Inr b)) = None"

text \<open>The keys of the URL fetches, of the delete calls and of the processor invocations of a
  trace, in order, and the verdicts the processor returned.\<close>

fun urlFetch :: "event \<Rightarrow> string option" where
  "urlFetch (Posted (GetForgottenRequest k) out) = Some k"
| "urlFetch ev = None"

fun deleteCall :: "event \<Rightarrow> string option" where
  "deleteCall (Posted (DeleteForgottenRequest k) out) = Some k"
| "deleteCall ev = None"

fun processorCall :: "event \<Rightarrow> string option" where
  "processorCall (Processed k u out) = Some k"
| "processorCall ev = None"

fun verdict :: "event \<Rightarrow> (string \<times> bool) option" where
  "verdict (Processed k u (Inr b)) = Some (k, b)"
| "verdict ev = None"

definition urlFetches :: "event list \<Rightarrow> string list" where
  "urlFetches evs = List.map_filter urlFetch evs"

definition deleteCalls :: "event list \<Rightarrow> string list" where
  "deleteCalls evs = List.map_filter deleteCall evs"

definition processorCalls :: "event list \<Rightarrow> string list" where
  "processorCalls evs = List.map_filter processorCall evs"

definition verdicts :: "event list \<Rightarrow> (string \<times> bool) list" where
  "verdicts evs = List.map_filter verdict evs"

text \<open>The calls made between two states of the world.\<close>

definition issued :: "'s world \<Rightarrow> 's world \<Rightarrow> event list" where
  "issued w w' = drop (length (calls w)) (calls w')"

text \<open>
  The traces the loop of \<open>processForgotten\<close> can leave on the keys \<open>ks\<close>, started
  with the counter at \<open>d\<close>, and the outcome each one ends in.
\<close>

inductive loopTrace ::
  "'s processor \<Rightarrow> string list \<Rightarrow> nat \<Rightarrow> event list \<Rightarrow> failure + nat \<Rightarrow> bool"
  for processor :: "'s processor" where
  Done: "loopTrace processor [] d [] (Inr d)"
| FetchFailed:
    "eventFailure (Posted (GetForgottenRequest k) out) = Some f \<Longrightarrow>
     loopTrace processor (k # ks) d [Posted (GetForgottenRequest k) out] (Inl f)"
| ProcessorThrew:
    "error rs = 0 \<Longrightarrow> fst (processor k (url rs) s) = Inl msg \<Longrightarrow>
     loopTrace processor (k # ks) d
       [Posted (GetForgottenRequest k) (Inr rs), Processed k (url rs) (Inl msg)]
       (Inl (ProcessorFailure msg))"
| Kept:
    "error rs = 0 \<Longrightarrow> fst (processor k (url rs) s) = Inr False \<Longrightarrow>
     loopTrace processor ks d evs r \<Longrightarrow>
     loopTrace processor (k # ks) d
       (Posted (GetForgottenRequest k) (Inr rs) # Processed k (url rs) (Inr False) # evs) r"
| DeleteFailed:
    "error rs = 0 \<Longrightarrow> fst (processor k (url rs) s) = Inr True \<Longrightarrow>
     eventFailure (Posted (DeleteForgottenRequest k) out) = Some f \<Longrightarrow>
     loopTrace processor (k # ks) d
       [Posted (GetForgottenRequest k) (Inr rs), Processed k (url rs) (Inr True),
        Posted (DeleteForgottenRequest k) out]
       (Inl f)"
| Deleted:
    "error rs = 0 \<Longrightarrow> fst (processor k (url rs) s) = Inr True \<Longrightarrow> error rs' = 0 \<Longrightarrow>
     loopTrace processor ks (Suc d) evs r \<Longrightarrow>
     loopTrace processor (k # ks) d
       (Posted (GetForgottenRequest k) (Inr rs) # Processed k (url rs) (Inr True) #
        Posted (DeleteForgottenRequest k) (Inr rs') # evs) r"

subsection \<open>A scripted command service\<close>

text \<open>
  A transport that replays a list of outcomes, one per request, and refuses the
  connection once the list is used up; processors that decide by the key.
\<close>

definition okResponse :: response where
  "okResponse = \<lparr>error = 0, version = [], key = [], url = [], keys = [],
     license = JNull, server = JNull, quota = JNull\<rparr>"

fun scripted :: "(string + response) list transport" where
  "scripted [] rq = (Inl ''ECONNREFUSED'', [])"
| "scripted (out # script) rq = (out, script)"

definition picky :: "(string + response) list processor" where
  "picky k u s = (Inr (k \<noteq> ''b''), s)"

definition always :: "bool \<Rightarrow> (string + response) list processor" where
  "always b k u s = (Inr b, s)"

definition startWorld :: "'s \<Rightarrow> 's world" where
  "startWorld s = \<lparr>remote = s, calls = []\<rparr>"

text \<open>
  The script of a pass over the keys \<open>ks\<close>: the list, then \<open>n\<close> plain successes.
\<close>

definition scriptFor :: "string list \<Rightarrow> nat \<Rightarrow> (string + response) list" where
  "scriptFor ks n = Inr (okResponse\<lparr>keys := ks\<rparr>) # replicate n (Inr okResponse)"

section \<open>Properties\<close>

lemma post_cases:
  "post axios_post rq w =
     (case postUnsafe axios_post rq w of
        (Inl e, w') \<Rightarrow> (Inl e, w')
      | (Inr result, w') \<Rightarrow>
          if error result = 0 then (Inr result, w')
          else (Inl (CommandFailure (new_CommandError (error result) rq result)), w'))"
  by (simp add: post_def await_def resolve_def reject_def split: prod.splits sum.splits)

subsection \<open>What one call leaves in the trace\<close>

lemma post_run:
  "post axios_post rq w = (r, w') \<Longrightarrow>
   \<exists>out. calls w' = calls w @ [Posted rq out] \<and>
     ((\<exists>f. eventFailure (Posted rq out) = Some f \<and> r = Inl f) \<or>
      (\<exists>rs. out = Inr rs \<and> error rs = 0 \<and> r = Inr rs))"
  by (auto simp: post_def postUnsafe_def await_def resolve_def reject_def
           split: prod.splits sum.splits if_splits)

lemma then_field_run:
  "then_field m f w = (case m w of (Inl e, w') \<Rightarrow> (Inl e, w') | (Inr x, w') \<Rightarrow> (Inr (f x), w'))"
  by (simp add: then_field_def await_def resolve_def split: prod.splits sum.splits)

lemma getForgotten_run:
  "getForgotten axios_post k w = (r, w') \<Longrightarrow>
   \<exists>out. calls w' = calls w @ [Posted (GetForgottenRequest k) out] \<and>
     ((\<exists>f. eventFailure (Posted (GetForgottenRequest k) out) = Some f \<and> r = Inl f) \<or>
      (\<exists>rs. out = Inr rs \<and> error rs = 0 \<and> r = Inr (url rs)))"
  unfolding getForgotten_def then_field_run
  by (auto split: prod.splits sum.splits dest!: post_run)

lemma deleteForgotten_run:
  "deleteForgotten axios_post k w = (r, w') \<Longrightarrow>
   \<exists>out. calls w' = calls w @ [Posted (DeleteForgottenRequest k) out] \<and>
     ((\<exists>f. eventFailure (Posted (DeleteForgottenRequest k) out) = Some f \<and> r = Inl f) \<or>
      (\<exists>rs. out = Inr rs \<and> error rs = 0 \<and> r = Inr (key rs)))"
  unfolding deleteForgotten_def then_field_run
  by (auto split: prod.splits sum.splits dest!: post_run)

lemma getForgottenList_run:
  "getForgottenList axios_post w = (r, w') \<Longrightarrow>
   \<exists>out. calls w' = calls w @ [Posted GetForgottenListRequest out] \<and>
     ((\<exists>f. eventFailure (Posted GetForgottenListRequest out) = Some f \<and> r = Inl f) \<or>
      (\<exists>rs. out = Inr rs \<and> error rs = 0 \<and> r = Inr (keys rs)))"
  unfolding getForgottenList_def then_field_run
  by (auto split: prod.splits sum.splits dest!: post_run)

lemma invoke_run:
  "invoke processor k u w = (r, w') \<Longrightarrow>
   \<exists>out. calls w' = calls w @ [Processed k u out] \<and>
     out = fst (processor k u (remote w)) \<and>
     r = (case out of Inl msg \<Rightarrow> Inl (ProcessorFailure msg) | Inr b \<Rightarrow> Inr b)"
  by (cases "processor k u (remote w)") (auto simp: invoke_def)

lemma forgottenLoop_trace:
  "forgottenLoop axios_post processor ks d w = (r, w') \<Longrightarrow>
   \<exists>evs. calls w' = calls w @ evs \<and> loopTrace processor ks d evs r"
proof (induction ks arbitrary: d w)
  case Nil
  then show ?case by (auto simp: resolve_def intro: loopTrace.Done)
next
  case (Cons k ks)
  obtain r1 w1 where g: "getForgotten axios_post k w = (r1, w1)" by force
  from getForgotten_run[OF g] obtain out1 where
    c1: "calls w1 = calls w @ [Posted (GetForgottenRequest k) out1]" and
    o1: "(\<exists>f. eventFailure (Posted (GetForgottenRequest k) out1) = Some f \<and> r1 = Inl f) \<or>
      (\<exists>rs. out1 = Inr rs \<and> error rs = 0 \<and> r1 = Inr (url rs))" by blast
  from o1 show ?case
  proof (elim disjE exE conjE)
    fix f assume Some: "eventFailure (Posted (GetForgottenRequest k) out1) = Some f" and "r1 = Inl f"
    with Cons.prems g have "r = Inl f" "w' = w1" by (auto simp: await_def)
    with c1 Some show ?thesis by (auto intro: loopTrace.FetchFailed)
  next
    fix rs assume rs: "out1 = Inr rs" "r1 = Inr (url rs)" "error rs = 0"
    obtain r2 w2 where i: "invoke processor k (url rs) w1 = (r2, w2)" by force
    from invoke_run[OF i] obtain out2 where
      c2: "calls w2 = calls w1 @ [Processed k (url rs) out2]" and
      p2: "out2 = fst (processor k (url rs) (remote w1))" and
      o2: "r2 = (case out2 of Inl msg \<Rightarrow> Inl (ProcessorFailure msg) | Inr b \<Rightarrow> Inr b)" by blast
    show ?thesis
    proof (cases out2)
      case (Inl msg)
      with o2 have "r2 = Inl (ProcessorFailure msg)" by simp
      with Cons.prems g i rs have fin: "r = Inl (ProcessorFailure msg)" "w' = w2" by (auto simp: await_def)
      from p2 Inl have pp: "fst (processor k (url rs) (remote w1)) = Inl msg" by simp
      with fin c1 c2 rs Inl show ?thesis by (auto intro: loopTrace.ProcessorThrew)
    next
      case (Inr b)
      with o2 have r2: "r2 = Inr b" by simp
      from p2 Inr have pp: "fst (processor k (url rs) (remote w1)) = Inr b" by simp
      show ?thesis
      proof (cases b)
        case False
        with Cons.prems g i rs r2 have "forgottenLoop axios_post processor ks d w2 = (r, w')"
          by (auto simp: await_def)
        from Cons.IH[OF this] obtain evs where "calls w' = calls w2 @ evs" "loopTrace processor ks d evs r" by blast
        with c1 c2 pp rs Inr False show ?thesis by (auto intro: loopTrace.Kept)
      next
        case True
        obtain r3 w3 where dl: "deleteForgotten axios_post k w2 = (r3, w3)" by force
        from deleteForgotten_run[OF dl] obtain out3 where
          c3: "calls w3 = calls w2 @ [Posted (DeleteForgottenRequest k) out3]" and
          o3: "(\<exists>f. eventFailure (Posted (DeleteForgottenRequest k) out3) = Some f \<and> r3 = Inl f) \<or>
               (\<exists>rs. out3 = Inr rs \<and> error rs = 0 \<and> r3 = Inr (key rs))" by blast
        from o3 show ?thesis
        proof (elim disjE exE conjE)
          fix f assume Some: "eventFailure (Posted (DeleteForgottenRequest k) out3) = Some f" and "r3 = Inl f"
          with Cons.prems g i rs r2 True dl have "r = Inl f" "w' = w3" by (auto simp: await_def)
          with c1 c2 c3 pp rs Inr True Some show ?thesis by (auto intro: loopTrace.DeleteFailed)
        next
          fix rs' assume rs': "out3 = Inr rs'" "r3 = Inr (key rs')" "error rs' = 0"
          with Cons.prems g i rs r2 True dl
          have "forgottenLoop axios_post processor ks (Suc d) w3 = (r, w')"
            by (auto simp: await_def)
          from Cons.IH[OF this] obtain evs where "calls w' = calls w3 @ evs" "loopTrace processor ks (Suc d) evs r" by blast
          with c1 c2 c3 pp rs rs' Inr True show ?thesis by (auto intro: loopTrace.Deleted)
        qed
      qed
    qed
  qed
qed

lemmas observers = urlFetches_def deleteCalls_def processorCalls_def verdicts_def

lemma loopTrace_deletes:
  "loopTrace processor ks d evs r \<Longrightarrow> deleteCalls evs = map fst (filter snd (verdicts evs))"
  by (induction rule: loopTrace.induct) (auto simp: observers)

lemma loopTrace_ok:
  "loopTrace processor ks d evs r \<Longrightarrow> r = Inr n \<Longrightarrow>
   urlFetches evs = ks \<and> processorCalls evs = ks \<and> map fst (verdicts evs) = ks \<and>
   n = d + length (deleteCalls evs) \<and> (\<forall>ev \<in> set evs. eventFailure ev = None)"
  by (induction rule: loopTrace.induct) (auto simp: observers)

lemma loopTrace_prefix:
  "loopTrace processor ks d evs r \<Longrightarrow>
   prefix (urlFetches evs) ks \<and> prefix (processorCalls evs) (urlFetches evs)"
  by (induction rule: loopTrace.induct) (auto simp: observers)

lemma loopTrace_failed:
  "loopTrace processor ks d evs r \<Longrightarrow> r = Inl f \<Longrightarrow>
   evs \<noteq> [] \<and> eventFailure (last evs) = Some f \<and>
   (\<forall>ev \<in> set (butlast evs). eventFailure ev = None)"
  by (induction rule: loopTrace.induct) (auto simp: observers)

lemma loopTrace_always:
  "loopTrace processor ks d evs r \<Longrightarrow> \<forall>k u s. fst (processor k u s) = Inr b \<Longrightarrow>
   \<forall>v \<in> set (verdicts evs). snd v = b"
  by (induction rule: loopTrace.induct) (auto simp: observers)


subsection \<open>The shuffle keeps the elements\<close>

lemma length_swap: "length (swap i j xs) = length xs"
  by (simp add: swap_def)

lemma mset_swap: "i < length xs \<Longrightarrow> j < length xs \<Longrightarrow> mset (swap i j xs) = mset xs"
  by (simp add: swap_def mset_update nth_list_update)

lemma length_fisherYattesLoop: "length (fisherYattesLoop rnd i xs) = length xs"
  by (induction i arbitrary: xs) (simp_all add: length_swap)

lemma mset_fisherYattesLoop: "i < length xs \<Longrightarrow> mset (fisherYattesLoop rnd i xs) = mset xs"
proof (induction i arbitrary: xs)
  case 0
  then show ?case by simp
next
  case (Suc i)
  have "rnd (Suc i) mod Suc (Suc i) < Suc (Suc i)" by simp
  with Suc.prems have j: "rnd (Suc i) mod Suc (Suc i) < length xs" by linarith
  from Suc.prems have "i < length (swap (Suc i) (rnd (Suc i) mod Suc (Suc i)) xs)"
    by (simp add: length_swap)
  from Suc.IH[OF this] Suc.prems j show ?case by (simp add: mset_swap)
qed

lemma mset_fisherYattesShuffleInPlace: "mset (fisherYattesShuffleInPlace rnd xs) = mset xs"
  by (cases "xs = []") (simp_all add: fisherYattesShuffleInPlace_def mset_fisherYattesLoop)

lemma length_fisherYattesShuffleInPlace: "length (fisherYattesShuffleInPlace rnd xs) = length xs"
  by (simp add: fisherYattesShuffleInPlace_def length_fisherYattesLoop)

lemma issued_append: "calls w' = calls w @ evs \<Longrightarrow> issued w w' = evs"
  by (simp add: issued_def)

lemma processForgotten_trace:
  assumes "processForgotten axios_post processor rnd w = (r, w')"
  shows "\<exists>out evs. issued w w' = Posted GetForgottenListRequest out # evs \<and>
     ((\<exists>f. eventFailure (Posted GetForgottenListRequest out) = Some f \<and>
           fst (getForgottenList axios_post w) = Inl f \<and> r = Inl f \<and> evs = []) \<or>
      (\<exists>rs. out = Inr rs \<and> error rs = 0 \<and>
           fst (getForgottenList axios_post w) = Inr (keys rs) \<and>
           loopTrace processor (fisherYattesShuffleInPlace rnd (keys rs)) 0 evs r))"
proof -
  obtain r1 w1 where g: "getForgottenList axios_post w = (r1, w1)" by force
  from getForgottenList_run[OF g] obtain out where
    c1: "calls w1 = calls w @ [Posted GetForgottenListRequest out]" and
    o1: "(\<exists>f. eventFailure (Posted GetForgottenListRequest out) = Some f \<and> r1 = Inl f) \<or>
         (\<exists>rs. out = Inr rs \<and> error rs = 0 \<and> r1 = Inr (keys rs))" by blast
  from o1 show ?thesis
  proof (elim disjE exE conjE)
    fix f assume f: "eventFailure (Posted GetForgottenListRequest out) = Some f" "r1 = Inl f"
    with assms g have "r = Inl f" "w' = w1" by (auto simp: processForgotten_def await_def)
    with c1 f g show ?thesis by (auto simp: issued_def)
  next
    fix rs assume rs: "out = Inr rs" "error rs = 0" "r1 = Inr (keys rs)"
    show ?thesis
    proof (cases "keys rs = []")
      case True
      with assms g rs have "r = Inr 0" "w' = w1"
        by (auto simp: processForgotten_def await_def resolve_def)
      with c1 rs g True show ?thesis
        by (auto simp: issued_def fisherYattesShuffleInPlace_def intro: loopTrace.Done)
    next
      case False
      with assms g rs have
        "forgottenLoop axios_post processor (fisherYattesShuffleInPlace rnd (keys rs)) 0 w1 = (r, w')"
        by (auto simp: processForgotten_def await_def)
      from forgottenLoop_trace[OF this] obtain evs where
        "calls w' = calls w1 @ evs"
        "loopTrace processor (fisherYattesShuffleInPlace rnd (keys rs)) 0 evs r" by blast
      with c1 rs g show ?thesis by (auto simp: issued_def)
    qed
  qed
qed

lemma failing_is_last:
  assumes "\<forall>ev \<in> set (butlast evs). eventFailure ev = None"
    and "i < length evs" and "eventFailure (evs ! i) = Some f"
  shows "Suc i = length evs"
proof (rule ccontr)
  assume "Suc i \<noteq> length evs"
  with assms(2) have i: "i < length (butlast evs)" by simp
  then have "butlast evs ! i \<in> set (butlast evs)" by (rule nth_mem)
  with i have "evs ! i \<in> set (butlast evs)" by (simp add: nth_butlast)
  with assms(1,3) show False by simp
qed

lemma prefix_mset: "prefix xs ys \<Longrightarrow> mset xs \<subseteq># mset ys"
  by (auto elim!: prefixE)

lemma processForgotten_returns:
  assumes "processForgotten axios_post processor rnd w = (r, w')"
  shows "(\<exists>n. r = Inr n) \<longleftrightarrow> (\<forall>ev \<in> set (issued w w'). eventFailure ev = None)"
proof -
  from processForgotten_trace[OF assms] obtain out evs0 where
    e: "issued w w' = Posted GetForgottenListRequest out # evs0" and
    c: "(\<exists>f. eventFailure (Posted GetForgottenListRequest out) = Some f \<and>
           fst (getForgottenList axios_post w) = Inl f \<and> r = Inl f \<and> evs0 = []) \<or>
      (\<exists>rs. out = Inr rs \<and> error rs = 0 \<and>
           fst (getForgottenList axios_post w) = Inr (keys rs) \<and>
           loopTrace processor (fisherYattesShuffleInPlace rnd (keys rs)) 0 evs0 r)"
    by auto
  from c show ?thesis
  proof (elim disjE exE conjE)
    fix f assume "eventFailure (Posted GetForgottenListRequest out) = Some f" "r = Inl f"
    with e show ?thesis by simp
  next
    fix rs assume rs: "out = Inr rs" "error rs = 0"
      and t: "loopTrace processor (fisherYattesShuffleInPlace rnd (keys rs)) 0 evs0 r"
    show ?thesis
    proof (cases r)
      case (Inr n)
      from loopTrace_ok[OF t Inr] e rs Inr show ?thesis by simp
    next
      case (Inl f)
      from loopTrace_failed[OF t Inl] have "evs0 \<noteq> []" "eventFailure (last evs0) = Some f"
        by simp_all
      then have "\<exists>ev \<in> set evs0. eventFailure ev \<noteq> None"
        by (intro bexI[of _ "last evs0"]) simp_all
      with e Inl show ?thesis by auto
    qed
  qed
qed



subsection \<open>Codes and labels\<close>

lemma ErrorCode_value_eq_0: "ErrorCode_value code = 0 \<longleftrightarrow> code = SUCCESS"
  by (cases code) simp_all

lemma ErrorCodeFromValue_known: "ErrorCodeFromValue (ErrorCode_value code) = ErrorCode_name code"
  by (cases code)
     (simp_all add: ErrorCodeFromValue_def getKeyForValueSafe_def ErrorCode_table_def
        ErrorCode_members_def)

section \<open>The claims\<close>

text \<open>
  C1. For every request and every response whose \<open>error\<close> field is a member of
  \<open>ErrorCode\<close>: \<open>post\<close> returns a payload if and only if the code is \<open>SUCCESS\<close>,
  and then it is the response itself; for every other code it fails with a
  \<open>CommandError\<close> that carries exactly that code (with the label of the code, the
  request and the response).
\<close>

theorem post_success_iff_SUCCESS:
  assumes "postUnsafe axios_post rq w = (Inr result, w')"
    and "error result = ErrorCode_value code"
  shows "((\<exists>payload. fst (post axios_post rq w) = Inr payload) \<longleftrightarrow> code = SUCCESS) \<and>
         (code = SUCCESS \<longrightarrow> post axios_post rq w = (Inr result, w')) \<and>
         (code \<noteq> SUCCESS \<longrightarrow>
            (\<exists>e. post axios_post rq w = (Inl (CommandFailure e), w') \<and>
                 errorCode e = ErrorCode_value code \<and>
                 errorLabel e = ErrorCode_name code \<and> requested e = rq \<and> got e = result))"
proof -
  from assms(1) have p: "post axios_post rq w =
      (if error result = 0 then (Inr result, w')
       else (Inl (CommandFailure (new_CommandError (error result) rq result)), w'))"
    by (simp add: post_cases)
  show ?thesis
  proof (cases "code = SUCCESS")
    case True
    with assms(2) p show ?thesis by simp
  next
    case False
    with assms(2) have "error result \<noteq> 0" by (simp add: ErrorCode_value_eq_0)
    with p assms(2) False show ?thesis
      by (simp add: new_CommandError_def ErrorCodeFromValue_known)
  qed
qed

theorem post_success_iff_SUCCESS_witness:
  "post scripted (ForceSaveRequest ''k1'' [])
     (startWorld [Inr (okResponse\<lparr>key := ''k1''\<rparr>)]) =
   (Inr (okResponse\<lparr>key := ''k1''\<rparr>),
    \<lparr>remote = [], calls = [Posted (ForceSaveRequest ''k1'' []) (Inr (okResponse\<lparr>key := ''k1''\<rparr>))]\<rparr>) \<and>
   (\<exists>e. post scripted (ForceSaveRequest ''k1'' []) (startWorld [Inr (okResponse\<lparr>error := 6\<rparr>)]) =
     (Inl (CommandFailure e),
      \<lparr>remote = [], calls = [Posted (ForceSaveRequest ''k1'' []) (Inr (okResponse\<lparr>error := 6\<rparr>))]\<rparr>) \<and>
     errorCode e = 6 \<and> errorLabel e = ''INVALID_TOKEN'')"
proof -
  have a: "postUnsafe scripted (ForceSaveRequest ''k1'' [])
     (startWorld [Inr (okResponse\<lparr>key := ''k1''\<rparr>)]) =
     (Inr (okResponse\<lparr>key := ''k1''\<rparr>),
      \<lparr>remote = [], calls = [Posted (ForceSaveRequest ''k1'' []) (Inr (okResponse\<lparr>key := ''k1''\<rparr>))]\<rparr>)"
    by (simp add: postUnsafe_def startWorld_def)
  have a': "error (okResponse\<lparr>key := ''k1''\<rparr>) = ErrorCode_value SUCCESS"
    by (simp add: okResponse_def)
  have b: "postUnsafe scripted (ForceSaveRequest ''k1'' [])
     (startWorld [Inr (okResponse\<lparr>error := 6\<rparr>)]) =
     (Inr (okResponse\<lparr>error := 6\<rparr>),
      \<lparr>remote = [], calls = [Posted (ForceSaveRequest ''k1'' []) (Inr (okResponse\<lparr>error := 6\<rparr>))]\<rparr>)"
    by (simp add: postUnsafe_def startWorld_def)
  have b': "error (okResponse\<lparr>error := 6\<rparr>) = ErrorCode_value INVALID_TOKEN"
    by simp
  show ?thesis
    using post_success_iff_SUCCESS[OF a a'] post_success_iff_SUCCESS[OF b b'] by auto
qed

lemma ErrorCode_members_all: "code \<in> set ErrorCode_members"
  by (cases code) (simp_all add: ErrorCode_members_def)

lemma unrecognizedValue_not_a_name: "unrecognizedValue objName v \<noteq> ErrorCode_name code"
  by (cases code) (simp_all add: unrecognizedValue_def)

text \<open>
  C8. For every integer that is not the value of a member of \<open>ErrorCode\<close>,
  \<open>ErrorCodeFromValue\<close> returns the fallback description, which is not the name of
  any member; it is a total function, so the lookup cannot fail, and the
  \<open>CommandError\<close> built on such a code is an ordinary value carrying the code and that
  description.
\<close>

theorem ErrorCodeFromValue_unrecognized:
  assumes "v \<notin> range ErrorCode_value"
  shows "ErrorCodeFromValue v = unrecognizedValue ''OnlyOffice.ErrorCode'' v \<and>
         (\<forall>code. ErrorCodeFromValue v \<noteq> ErrorCode_name code) \<and>
         new_CommandError v rq rs =
           \<lparr>errorCode = v, errorLabel = unrecognizedValue ''OnlyOffice.ErrorCode'' v,
            requested = rq, got = rs\<rparr>"
proof -
  from assms have "\<not> (\<exists>entry. entry \<in> set ErrorCode_table \<and> snd entry = v)"
    by (auto simp: ErrorCode_table_def)
  then have "find (\<lambda>entry. snd entry = v) ErrorCode_table = None"
    by (simp add: find_None_iff)
  then have "ErrorCodeFromValue v = unrecognizedValue ''OnlyOffice.ErrorCode'' v"
    by (simp add: ErrorCodeFromValue_def getKeyForValueSafe_def)
  then show ?thesis
    by (simp add: new_CommandError_def unrecognizedValue_not_a_name)
qed

theorem ErrorCodeFromValue_unrecognized_witness:
  "(42 :: int) \<notin> range ErrorCode_value \<and>
   ErrorCodeFromValue 42 = ''unrecognized OnlyOffice.ErrorCode code 42'' \<and>
   errorCode (new_CommandError 42 LicenseRequest (okResponse\<lparr>error := 42\<rparr>)) = 42 \<and>
   errorLabel (new_CommandError 42 LicenseRequest (okResponse\<lparr>error := 42\<rparr>)) =
     ''unrecognized OnlyOffice.ErrorCode code 42''"
proof -
  have "ErrorCode_value code \<noteq> 42" for code by (cases code) simp_all
  then have h: "(42 :: int) \<notin> range ErrorCode_value" by auto
  have u: "unrecognizedValue ''OnlyOffice.ErrorCode'' 42 = ''unrecognized OnlyOffice.ErrorCode code 42''"
    by code_simp
  from ErrorCodeFromValue_unrecognized[OF h, of LicenseRequest "okResponse\<lparr>error := 42\<rparr>"] h u
  show ?thesis by simp
qed

text \<open>
  C5. When the fetched list of forgotten keys is empty, \<open>processForgotten\<close> returns 0
  in the world the list fetch left: the fetch of the list is the only call made, with no
  URL fetch, no processor invocation and no delete call.
\<close>

theorem processForgotten_empty_list:
  assumes "getForgottenList axios_post w = (Inr [], w1)"
  shows "processForgotten axios_post processor rnd w = (Inr 0, w1) \<and>
         (\<exists>rs. issued w w1 = [Posted GetForgottenListRequest (Inr rs)]) \<and>
         urlFetches (issued w w1) = [] \<and> processorCalls (issued w w1) = [] \<and>
         deleteCalls (issued w w1) = []"
proof -
  from assms have r: "processForgotten axios_post processor rnd w = (Inr 0, w1)"
    by (simp add: processForgotten_def await_def resolve_def)
  from getForgottenList_run[OF assms] obtain rs where
    "calls w1 = calls w @ [Posted GetForgottenListRequest (Inr rs)]" by auto
  then have "issued w w1 = [Posted GetForgottenListRequest (Inr rs)]" by (rule issued_append)
  with r show ?thesis by (simp add: observers)
qed

theorem processForgotten_empty_list_witness:
  "getForgottenList scripted (startWorld [Inr okResponse]) =
     (Inr [], \<lparr>remote = [], calls = [Posted GetForgottenListRequest (Inr okResponse)]\<rparr>) \<and>
   processForgotten scripted picky (\<lambda>i. i) (startWorld [Inr okResponse]) =
     (Inr 0, \<lparr>remote = [], calls = [Posted GetForgottenListRequest (Inr okResponse)]\<rparr>) \<and>
   issued (startWorld [Inr okResponse])
     \<lparr>remote = [], calls = [Posted GetForgottenListRequest (Inr okResponse)]\<rparr> =
     [Posted GetForgottenListRequest (Inr okResponse)]"
proof -
  have h: "getForgottenList scripted (startWorld [Inr okResponse]) =
     (Inr [], \<lparr>remote = [], calls = [Posted GetForgottenListRequest (Inr okResponse)]\<rparr>)"
    by code_simp
  have i: "issued (startWorld [Inr okResponse])
     \<lparr>remote = [], calls = [Posted GetForgottenListRequest (Inr okResponse)]\<rparr> =
     [Posted GetForgottenListRequest (Inr okResponse)]"
    by (simp add: issued_def startWorld_def)
  from processForgotten_empty_list[OF h, of picky "\<lambda>i. i"] h i show ?thesis by simp
qed

text \<open>
  C2. In a call of \<open>processForgotten\<close> that fetched the list: the delete calls are
  exactly the keys on which the processor returned true, in order, and none is made for
  a key on which it returned false. The call returns a count exactly when no call
  failed, and then every key of the list got one verdict and the count is the number of
  delete calls. With a processor that always returns true and no failing call, the count
  is the length of the list and every key is deleted; with one that always returns false
  nothing is deleted, and the count is 0.
\<close>

theorem processForgotten_deletes_approved:
  assumes "getForgottenList axios_post w = (Inr ks, w1)"
    and "processForgotten axios_post processor rnd w = (r, w')"
    and "evs = issued w w'"
  shows "deleteCalls evs = map fst (filter snd (verdicts evs)) \<and>
         ((\<forall>ev \<in> set evs. eventFailure ev = None) \<longrightarrow>
            r = Inr (length (deleteCalls evs)) \<and> mset (map fst (verdicts evs)) = mset ks) \<and>
         (\<forall>n. r = Inr n \<longrightarrow>
            n = length (deleteCalls evs) \<and> (\<forall>ev \<in> set evs. eventFailure ev = None)) \<and>
         ((\<forall>k u s. fst (processor k u s) = Inr True) \<and>
          (\<forall>ev \<in> set evs. eventFailure ev = None) \<longrightarrow>
            r = Inr (length ks) \<and> mset (deleteCalls evs) = mset ks) \<and>
         ((\<forall>k u s. fst (processor k u s) = Inr False) \<longrightarrow>
            deleteCalls evs = [] \<and> ((\<forall>ev \<in> set evs. eventFailure ev = None) \<longrightarrow> r = Inr 0))"
proof -
  from processForgotten_trace[OF assms(2)] assms(1,3) obtain rs evs0 where
    e: "evs = Posted GetForgottenListRequest (Inr rs) # evs0" and
    rs: "error rs = 0" "keys rs = ks" and
    t: "loopTrace processor (fisherYattesShuffleInPlace rnd ks) 0 evs0 r"
    by auto
  have v: "verdicts evs = verdicts evs0" and d: "deleteCalls evs = deleteCalls evs0"
    using e by (simp_all add: observers)
  from processForgotten_returns[OF assms(2)] assms(3)
  have ret: "(\<exists>n. r = Inr n) \<longleftrightarrow> (\<forall>ev \<in> set evs. eventFailure ev = None)" by simp
  have 1: "deleteCalls evs = map fst (filter snd (verdicts evs))"
    using loopTrace_deletes[OF t] v d by simp
  have counted: "n = length (deleteCalls evs) \<and> mset (map fst (verdicts evs)) = mset ks"
    if "r = Inr n" for n
    using loopTrace_ok[OF t that] v d by (simp add: mset_fisherYattesShuffleInPlace)
  have 2: "(\<forall>ev \<in> set evs. eventFailure ev = None) \<longrightarrow>
            r = Inr (length (deleteCalls evs)) \<and> mset (map fst (verdicts evs)) = mset ks"
  proof
    assume "\<forall>ev \<in> set evs. eventFailure ev = None"
    with ret obtain n where n: "r = Inr n" by blast
    from counted[OF n] n
    show "r = Inr (length (deleteCalls evs)) \<and> mset (map fst (verdicts evs)) = mset ks" by simp
  qed
  have 3: "\<forall>n. r = Inr n \<longrightarrow>
            n = length (deleteCalls evs) \<and> (\<forall>ev \<in> set evs. eventFailure ev = None)"
  proof (intro allI impI)
    fix n assume n: "r = Inr n"
    with ret have "\<forall>ev \<in> set evs. eventFailure ev = None" by blast
    with counted[OF n]
    show "n = length (deleteCalls evs) \<and> (\<forall>ev \<in> set evs. eventFailure ev = None)" by simp
  qed
  have 4: "(\<forall>k u s. fst (processor k u s) = Inr True) \<and>
          (\<forall>ev \<in> set evs. eventFailure ev = None) \<longrightarrow>
            r = Inr (length ks) \<and> mset (deleteCalls evs) = mset ks"
  proof (intro impI, elim conjE)
    assume that: "\<forall>k u s. fst (processor k u s) = Inr True"
      and clean: "\<forall>ev \<in> set evs. eventFailure ev = None"
    from loopTrace_always[OF t that] v have "\<forall>x \<in> set (verdicts evs). snd x" by simp
    then have "filter snd (verdicts evs) = verdicts evs" by simp
    with 1 have dv: "deleteCalls evs = map fst (verdicts evs)" by simp
    from 2 clean have r: "r = Inr (length (deleteCalls evs))"
      and m0: "mset (map fst (verdicts evs)) = mset ks" by simp_all
    from m0 dv have m: "mset (deleteCalls evs) = mset ks" by simp
    from mset_eq_length[OF m] r m
    show "r = Inr (length ks) \<and> mset (deleteCalls evs) = mset ks" by simp
  qed
  have 5: "(\<forall>k u s. fst (processor k u s) = Inr False) \<longrightarrow>
            deleteCalls evs = [] \<and> ((\<forall>ev \<in> set evs. eventFailure ev = None) \<longrightarrow> r = Inr 0)"
  proof
    assume that: "\<forall>k u s. fst (processor k u s) = Inr False"
    from loopTrace_always[OF t that] v have "\<forall>x \<in> set (verdicts evs). \<not> snd x" by simp
    then have "filter snd (verdicts evs) = []" by (simp add: filter_empty_conv)
    with 1 have n: "deleteCalls evs = []" by simp
    with 2 show "deleteCalls evs = [] \<and>
        ((\<forall>ev \<in> set evs. eventFailure ev = None) \<longrightarrow> r = Inr 0)" by simp
  qed
  show ?thesis
    by (rule conjI[OF 1 conjI[OF 2 conjI[OF 3 conjI[OF 4 5]]]])
qed

theorem processForgotten_deletes_approved_witness:
  "fst (processForgotten scripted picky (\<lambda>i. 0) (startWorld (scriptFor [''a'', ''b'', ''c''] 5))) = Inr 2 \<and>
   verdicts (issued (startWorld (scriptFor [''a'', ''b'', ''c''] 5))
      (snd (processForgotten scripted picky (\<lambda>i. 0) (startWorld (scriptFor [''a'', ''b'', ''c''] 5))))) =
     [(''b'', False), (''c'', True), (''a'', True)] \<and>
   deleteCalls (issued (startWorld (scriptFor [''a'', ''b'', ''c''] 5))
      (snd (processForgotten scripted picky (\<lambda>i. 0) (startWorld (scriptFor [''a'', ''b'', ''c''] 5))))) =
     [''c'', ''a''] \<and>
   fst (processForgotten scripted (always True) (\<lambda>i. 0) (startWorld (scriptFor [''a'', ''b''] 4))) =
     Inr (length [''a'', ''b'']) \<and>
   fst (processForgotten scripted (always False) (\<lambda>i. 0) (startWorld (scriptFor [''a'', ''b''] 2))) =
     Inr 0"
proof -
  have l3: "getForgottenList scripted (startWorld (scriptFor [''a'', ''b'', ''c''] 5)) =
      (Inr [''a'', ''b'', ''c''],
       snd (getForgottenList scripted (startWorld (scriptFor [''a'', ''b'', ''c''] 5))))"
    by code_simp
  have v3: "verdicts (issued (startWorld (scriptFor [''a'', ''b'', ''c''] 5))
      (snd (processForgotten scripted picky (\<lambda>i. 0) (startWorld (scriptFor [''a'', ''b'', ''c''] 5))))) =
     [(''b'', False), (''c'', True), (''a'', True)]"
    by code_simp
  have c3: "\<forall>ev \<in> set (issued (startWorld (scriptFor [''a'', ''b'', ''c''] 5))
      (snd (processForgotten scripted picky (\<lambda>i. 0) (startWorld (scriptFor [''a'', ''b'', ''c''] 5))))).
      eventFailure ev = None"
    by code_simp
  have l2: "getForgottenList scripted (startWorld (scriptFor [''a'', ''b''] n)) =
      (Inr [''a'', ''b''], snd (getForgottenList scripted (startWorld (scriptFor [''a'', ''b''] n))))" for n
    by (simp add: getForgottenList_def then_field_run post_cases postUnsafe_def startWorld_def
          scriptFor_def okResponse_def)
  have ct: "\<forall>ev \<in> set (issued (startWorld (scriptFor [''a'', ''b''] 4))
      (snd (processForgotten scripted (always True) (\<lambda>i. 0) (startWorld (scriptFor [''a'', ''b''] 4))))).
      eventFailure ev = None"
    by code_simp
  have cf: "\<forall>ev \<in> set (issued (startWorld (scriptFor [''a'', ''b''] 2))
      (snd (processForgotten scripted (always False) (\<lambda>i. 0) (startWorld (scriptFor [''a'', ''b''] 2))))).
      eventFailure ev = None"
    by code_simp
  have at: "\<forall>k u s. fst (always True k u s) = Inr True"
    and af: "\<forall>k u s. fst (always False k u s) = Inr False"
    by (simp_all add: always_def)
  note p3 = processForgotten_deletes_approved[OF l3 prod.collapse[symmetric] refl,
      where processor = picky and rnd = "\<lambda>i. 0"]
  from p3[THEN conjunct1] v3
  have d3: "deleteCalls (issued (startWorld (scriptFor [''a'', ''b'', ''c''] 5))
      (snd (processForgotten scripted picky (\<lambda>i. 0) (startWorld (scriptFor [''a'', ''b'', ''c''] 5))))) =
     [''c'', ''a'']"
    by simp
  from p3[THEN conjunct2, THEN conjunct1] c3 d3
  have r3: "fst (processForgotten scripted picky (\<lambda>i. 0)
      (startWorld (scriptFor [''a'', ''b'', ''c''] 5))) = Inr 2"
    by simp
  note pt = processForgotten_deletes_approved[OF l2[of 4] prod.collapse[symmetric] refl,
      where processor = "always True" and rnd = "\<lambda>i. 0"]
  from pt[THEN conjunct2, THEN conjunct2, THEN conjunct2, THEN conjunct1] at ct
  have rt: "fst (processForgotten scripted (always True) (\<lambda>i. 0)
      (startWorld (scriptFor [''a'', ''b''] 4))) = Inr (length [''a'', ''b''])"
    by blast
  note pf = processForgotten_deletes_approved[OF l2[of 2] prod.collapse[symmetric] refl,
      where processor = "always False" and rnd = "\<lambda>i. 0"]
  from pf[THEN conjunct2, THEN conjunct2, THEN conjunct2, THEN conjunct2] af cf
  have rf: "fst (processForgotten scripted (always False) (\<lambda>i. 0)
      (startWorld (scriptFor [''a'', ''b''] 2))) = Inr 0"
    by blast
  from r3 v3 d3 rt rf show ?thesis by blast
qed

text \<open>
  C3. In any run of \<open>processForgotten\<close>, a call that fails (a rejected or refused
  request of the list, of a URL or of a deletion; also a processor that throws) is the
  last call of the run, and the run ends in exactly that failure, so no count is
  returned. When the fetch of the list fails, that fetch is the only call: no URL is
  fetched, no processor is invoked and nothing is deleted.
\<close>

theorem processForgotten_failure_aborts:
  assumes "processForgotten axios_post processor rnd w = (r, w')"
    and "evs = issued w w'"
  shows "(\<forall>i < length evs. \<forall>f. eventFailure (evs ! i) = Some f \<longrightarrow>
            Suc i = length evs \<and> r = Inl f) \<and>
         (\<forall>f. fst (getForgottenList axios_post w) = Inl f \<longrightarrow>
            r = Inl f \<and> length evs = 1 \<and> urlFetches evs = [] \<and>
            processorCalls evs = [] \<and> deleteCalls evs = [])"
proof -
  from processForgotten_trace[OF assms(1)] assms(2) obtain out evs0 where
    e: "evs = Posted GetForgottenListRequest out # evs0" and
    c: "(\<exists>f. eventFailure (Posted GetForgottenListRequest out) = Some f \<and>
           fst (getForgottenList axios_post w) = Inl f \<and> r = Inl f \<and> evs0 = []) \<or>
      (\<exists>rs. out = Inr rs \<and> error rs = 0 \<and>
           fst (getForgottenList axios_post w) = Inr (keys rs) \<and>
           loopTrace processor (fisherYattesShuffleInPlace rnd (keys rs)) 0 evs0 r)"
    by auto
  have last_only: "eventFailure (last evs) = Some f \<and> r = Inl f \<and>
      (\<forall>ev \<in> set (butlast evs). eventFailure ev = None)" if "r = Inl f" for f
    using c
  proof (elim disjE exE conjE)
    fix g assume "eventFailure (Posted GetForgottenListRequest out) = Some g" "r = Inl g" "evs0 = []"
    with e that show ?thesis by simp
  next
    fix rs assume rs: "out = Inr rs" "error rs = 0"
      and t: "loopTrace processor (fisherYattesShuffleInPlace rnd (keys rs)) 0 evs0 r"
    from loopTrace_failed[OF t that] e rs that show ?thesis by simp
  qed
  have clean: "\<forall>ev \<in> set evs. eventFailure ev = None" if "r = Inr n" for n
    using c
  proof (elim disjE exE conjE)
    fix g assume "r = Inl g"
    with that show ?thesis by simp
  next
    fix rs assume rs: "out = Inr rs" "error rs = 0"
      and t: "loopTrace processor (fisherYattesShuffleInPlace rnd (keys rs)) 0 evs0 r"
    from loopTrace_ok[OF t that] e rs show ?thesis by simp
  qed
  have a: "Suc i = length evs \<and> r = Inl f"
    if i: "i < length evs" and f: "eventFailure (evs ! i) = Some f" for i f
  proof (cases r)
    case (Inl g)
    from last_only[OF Inl] have l: "eventFailure (last evs) = Some g"
      and b: "\<forall>ev \<in> set (butlast evs). eventFailure ev = None" by simp_all
    from failing_is_last[OF b i f] have s: "Suc i = length evs" .
    from s have n: "length evs = Suc i" by simp
    then have "evs \<noteq> []" by auto
    then have "last evs = evs ! (length evs - 1)" by (rule last_conv_nth)
    with n have "last evs = evs ! i" by simp
    with l f Inl s show ?thesis by simp
  next
    case (Inr n)
    from clean[OF Inr] i have "eventFailure (evs ! i) = None" by simp
    with f show ?thesis by simp
  qed
  have b: "r = Inl f \<and> length evs = 1 \<and> urlFetches evs = [] \<and>
            processorCalls evs = [] \<and> deleteCalls evs = []"
    if "fst (getForgottenList axios_post w) = Inl f" for f
    using c that e by (auto simp: observers)
  show ?thesis
  proof (intro conjI allI impI)
    fix i f assume "i < length evs" "eventFailure (evs ! i) = Some f"
    then show "Suc i = length evs" "r = Inl f" using a by blast+
  next
    fix f assume "fst (getForgottenList axios_post w) = Inl f"
    from b[OF this] show "r = Inl f" "length evs = 1" "urlFetches evs = []"
      "processorCalls evs = []" "deleteCalls evs = []" by simp_all
  qed
qed

theorem processForgotten_failure_aborts_witness:
  "fst (processForgotten scripted picky (\<lambda>i. i) (startWorld [])) =
     Inl (TransportFailure ''ECONNREFUSED'') \<and>
   deleteCalls (issued (startWorld [])
     (snd (processForgotten scripted picky (\<lambda>i. i) (startWorld [])))) = [] \<and>
   fst (processForgotten scripted picky (\<lambda>i. i)
     (startWorld (scriptFor [''a'', ''b'', ''c''] 2 @ [Inr (okResponse\<lparr>error := 1\<rparr>)]))) =
     Inl (CommandFailure (new_CommandError 1 (GetForgottenRequest ''b'') (okResponse\<lparr>error := 1\<rparr>))) \<and>
   length (issued (startWorld (scriptFor [''a'', ''b'', ''c''] 2 @ [Inr (okResponse\<lparr>error := 1\<rparr>)]))
     (snd (processForgotten scripted picky (\<lambda>i. i)
       (startWorld (scriptFor [''a'', ''b'', ''c''] 2 @ [Inr (okResponse\<lparr>error := 1\<rparr>)]))))) = 5"
proof -
  have l0: "fst (getForgottenList scripted (startWorld [])) = Inl (TransportFailure ''ECONNREFUSED'')"
    by code_simp
  have i4: "4 < length (issued (startWorld (scriptFor [''a'', ''b'', ''c''] 2 @ [Inr (okResponse\<lparr>error := 1\<rparr>)]))
     (snd (processForgotten scripted picky (\<lambda>i. i)
       (startWorld (scriptFor [''a'', ''b'', ''c''] 2 @ [Inr (okResponse\<lparr>error := 1\<rparr>)])))))"
    by code_simp
  have f4: "eventFailure (issued (startWorld (scriptFor [''a'', ''b'', ''c''] 2 @ [Inr (okResponse\<lparr>error := 1\<rparr>)]))
     (snd (processForgotten scripted picky (\<lambda>i. i)
       (startWorld (scriptFor [''a'', ''b'', ''c''] 2 @ [Inr (okResponse\<lparr>error := 1\<rparr>)])))) ! 4) =
     Some (CommandFailure (new_CommandError 1 (GetForgottenRequest ''b'') (okResponse\<lparr>error := 1\<rparr>)))"
    by code_simp
  note p0 = processForgotten_failure_aborts[where axios_post = scripted and processor = picky
      and rnd = "\<lambda>i. i" and w = "startWorld []", OF prod.collapse[symmetric] refl]
  from p0[THEN conjunct2] l0
  have a: "fst (processForgotten scripted picky (\<lambda>i. i) (startWorld [])) =
       Inl (TransportFailure ''ECONNREFUSED'') \<and>
     deleteCalls (issued (startWorld [])
       (snd (processForgotten scripted picky (\<lambda>i. i) (startWorld [])))) = []"
    by blast
  note p4 = processForgotten_failure_aborts[where axios_post = scripted and processor = picky
      and rnd = "\<lambda>i. i"
      and w = "startWorld (scriptFor [''a'', ''b'', ''c''] 2 @ [Inr (okResponse\<lparr>error := 1\<rparr>)])",
      OF prod.collapse[symmetric] refl]
  from p4[THEN conjunct1] i4 f4
  have b: "Suc 4 = length (issued (startWorld (scriptFor [''a'', ''b'', ''c''] 2 @ [Inr (okResponse\<lparr>error := 1\<rparr>)]))
     (snd (processForgotten scripted picky (\<lambda>i. i)
       (startWorld (scriptFor [''a'', ''b'', ''c''] 2 @ [Inr (okResponse\<lparr>error := 1\<rparr>)]))))) \<and>
    fst (processForgotten scripted picky (\<lambda>i. i)
     (startWorld (scriptFor [''a'', ''b'', ''c''] 2 @ [Inr (okResponse\<lparr>error := 1\<rparr>)]))) =
     Inl (CommandFailure (new_CommandError 1 (GetForgottenRequest ''b'') (okResponse\<lparr>error := 1\<rparr>)))"
    by blast
  from a b show ?thesis by simp
qed

subsection \<open>Where a pass stops\<close>

lemma count_list_approved:
  "count_list (map fst (filter snd vs)) k = count_list vs (k, True)"
  by (induction vs) auto

lemma loopTrace_abort:
  "loopTrace processor ks d evs r \<Longrightarrow> r = Inl f \<Longrightarrow>
   \<exists>p < length ks. urlFetches evs = take (Suc p) ks \<and>
     map fst (take p (verdicts evs)) = take p ks \<and>
     length (verdicts evs) \<le> Suc p \<and>
     deleteCalls (butlast evs) = map fst (filter snd (take p (verdicts evs)))"
proof (induction rule: loopTrace.induct)
  case (Done d)
  then show ?case by simp
next
  case (FetchFailed k out f' ks d)
  then show ?case by (intro exI[of _ 0]) (simp add: observers)
next
  case (ProcessorThrew rs k s msg ks d)
  then show ?case by (intro exI[of _ 0]) (simp add: observers)
next
  case (Kept rs k s ks d evs r)
  from Kept.IH[OF Kept.prems] obtain p where p: "p < length ks"
    "urlFetches evs = take (Suc p) ks"
    "map fst (take p (verdicts evs)) = take p ks"
    "length (verdicts evs) \<le> Suc p"
    "deleteCalls (butlast evs) = map fst (filter snd (take p (verdicts evs)))" by blast
  from p(1,2) have "evs \<noteq> []" by (auto simp: observers)
  with p show ?case by (intro exI[of _ "Suc p"]) (simp add: observers)
next
  case (DeleteFailed rs k s out f' ks d)
  then show ?case by (intro exI[of _ 0]) (simp add: observers)
next
  case (Deleted rs k s rs' ks d evs r)
  from Deleted.IH[OF Deleted.prems] obtain p where p: "p < length ks"
    "urlFetches evs = take (Suc p) ks"
    "map fst (take p (verdicts evs)) = take p ks"
    "length (verdicts evs) \<le> Suc p"
    "deleteCalls (butlast evs) = map fst (filter snd (take p (verdicts evs)))" by blast
  from p(1,2) have "evs \<noteq> []" by (auto simp: observers)
  with p show ?case by (intro exI[of _ "Suc p"]) (simp add: observers)
qed

text \<open>
  C4. In one call of \<open>processForgotten\<close> over the fetched list: the keys whose URL is
  fetched, in order, are an initial stretch of the shuffled list, and the processor is
  invoked on an initial stretch of those, so no element of the list is visited twice and
  none is revisited. The call returns a count exactly when no call failed, and then the
  URL fetches and the processor invocations are each exactly the shuffled list, one per
  element of the fetched list, whatever the order drawn.
\<close>

theorem processForgotten_visits_once:
  assumes "getForgottenList axios_post w = (Inr ks, w1)"
    and "processForgotten axios_post processor rnd w = (r, w')"
    and "evs = issued w w'"
  shows "prefix (urlFetches evs) (fisherYattesShuffleInPlace rnd ks) \<and>
         prefix (processorCalls evs) (urlFetches evs) \<and>
         mset (urlFetches evs) \<subseteq># mset ks \<and>
         mset (processorCalls evs) \<subseteq># mset ks \<and>
         ((\<forall>ev \<in> set evs. eventFailure ev = None) \<or> (\<exists>n. r = Inr n) \<longrightarrow>
            (\<forall>ev \<in> set evs. eventFailure ev = None) \<and> (\<exists>n. r = Inr n) \<and>
            urlFetches evs = fisherYattesShuffleInPlace rnd ks \<and>
            processorCalls evs = fisherYattesShuffleInPlace rnd ks \<and>
            mset (urlFetches evs) = mset ks \<and> mset (processorCalls evs) = mset ks)"
proof -
  from processForgotten_returns[OF assms(2)] assms(3)
  have ret: "(\<exists>n. r = Inr n) \<longleftrightarrow> (\<forall>ev \<in> set evs. eventFailure ev = None)" by simp
  from processForgotten_trace[OF assms(2)] assms(1,3) obtain rs evs0 where
    e: "evs = Posted GetForgottenListRequest (Inr rs) # evs0" and
    rs: "error rs = 0" "keys rs = ks" and
    t: "loopTrace processor (fisherYattesShuffleInPlace rnd ks) 0 evs0 r"
    by auto
  have u: "urlFetches evs = urlFetches evs0" and c: "processorCalls evs = processorCalls evs0"
    using e by (simp_all add: observers)
  from loopTrace_prefix[OF t] u c have
    1: "prefix (urlFetches evs) (fisherYattesShuffleInPlace rnd ks)" and
    2: "prefix (processorCalls evs) (urlFetches evs)" by simp_all
  from prefix_mset[OF 1] have 3: "mset (urlFetches evs) \<subseteq># mset ks"
    by (simp add: mset_fisherYattesShuffleInPlace)
  from prefix_mset[OF 2] 3 have 4: "mset (processorCalls evs) \<subseteq># mset ks"
    by (rule subset_mset.order_trans)
  have 5: "(\<forall>ev \<in> set evs. eventFailure ev = None) \<or> (\<exists>n. r = Inr n) \<longrightarrow>
            (\<forall>ev \<in> set evs. eventFailure ev = None) \<and> (\<exists>n. r = Inr n) \<and>
            urlFetches evs = fisherYattesShuffleInPlace rnd ks \<and>
            processorCalls evs = fisherYattesShuffleInPlace rnd ks \<and>
            mset (urlFetches evs) = mset ks \<and> mset (processorCalls evs) = mset ks"
  proof
    assume "(\<forall>ev \<in> set evs. eventFailure ev = None) \<or> (\<exists>n. r = Inr n)"
    with ret have clean: "\<forall>ev \<in> set evs. eventFailure ev = None" and "\<exists>n. r = Inr n"
      by blast+
    then obtain n where n: "r = Inr n" by blast
    from loopTrace_ok[OF t n] u c
    have "urlFetches evs = fisherYattesShuffleInPlace rnd ks \<and>
            processorCalls evs = fisherYattesShuffleInPlace rnd ks \<and>
            mset (urlFetches evs) = mset ks \<and> mset (processorCalls evs) = mset ks"
      by (simp add: mset_fisherYattesShuffleInPlace)
    with clean n
    show "(\<forall>ev \<in> set evs. eventFailure ev = None) \<and> (\<exists>n. r = Inr n) \<and>
            urlFetches evs = fisherYattesShuffleInPlace rnd ks \<and>
            processorCalls evs = fisherYattesShuffleInPlace rnd ks \<and>
            mset (urlFetches evs) = mset ks \<and> mset (processorCalls evs) = mset ks"
      by blast
  qed
  show ?thesis by (rule conjI[OF 1 conjI[OF 2 conjI[OF 3 conjI[OF 4 5]]]])
qed

theorem processForgotten_visits_once_witness:
  "urlFetches (issued (startWorld (scriptFor [''a'', ''b'', ''c''] 5))
      (snd (processForgotten scripted picky (\<lambda>i. 0) (startWorld (scriptFor [''a'', ''b'', ''c''] 5))))) =
     fisherYattesShuffleInPlace (\<lambda>i. 0) [''a'', ''b'', ''c''] \<and>
   processorCalls (issued (startWorld (scriptFor [''a'', ''b'', ''c''] 5))
      (snd (processForgotten scripted picky (\<lambda>i. 0) (startWorld (scriptFor [''a'', ''b'', ''c''] 5))))) =
     fisherYattesShuffleInPlace (\<lambda>i. 0) [''a'', ''b'', ''c''] \<and>
   fisherYattesShuffleInPlace (\<lambda>i. 0) [''a'', ''b'', ''c''] = [''b'', ''c'', ''a'']"
proof -
  have l3: "getForgottenList scripted (startWorld (scriptFor [''a'', ''b'', ''c''] 5)) =
      (Inr [''a'', ''b'', ''c''],
       snd (getForgottenList scripted (startWorld (scriptFor [''a'', ''b'', ''c''] 5))))"
    by code_simp
  have r3: "processForgotten scripted picky (\<lambda>i. 0) (startWorld (scriptFor [''a'', ''b'', ''c''] 5)) =
      (Inr 2, snd (processForgotten scripted picky (\<lambda>i. 0) (startWorld (scriptFor [''a'', ''b'', ''c''] 5))))"
    by code_simp
  have s3: "fisherYattesShuffleInPlace (\<lambda>i. 0) [''a'', ''b'', ''c''] = [''b'', ''c'', ''a'']"
    by code_simp
  note p = processForgotten_visits_once[OF l3 r3 refl]
  have c3: "\<forall>ev \<in> set (issued (startWorld (scriptFor [''a'', ''b'', ''c''] 5))
      (snd (processForgotten scripted picky (\<lambda>i. 0) (startWorld (scriptFor [''a'', ''b'', ''c''] 5))))).
      eventFailure ev = None"
    by code_simp
  from p[THEN conjunct2, THEN conjunct2, THEN conjunct2, THEN conjunct2] c3 s3
  show ?thesis by blast
qed

text \<open>
  C10. When the fetched list holds a key several times and the call returns a count,
  each occurrence is processed on its own: for every key the URL fetches and the
  processor invocations number as many as its occurrences in the list, its delete calls
  as many as its true verdicts, and the count is the number of true verdicts.
\<close>

theorem processForgotten_duplicates:
  assumes "getForgottenList axios_post w = (Inr ks, w1)"
    and "processForgotten axios_post processor rnd w = (Inr n, w')"
    and "evs = issued w w'"
  shows "count_list (urlFetches evs) k = count_list ks k \<and>
         count_list (processorCalls evs) k = count_list ks k \<and>
         count_list (deleteCalls evs) k = count_list (verdicts evs) (k, True) \<and>
         n = length (filter snd (verdicts evs))"
proof -
  from processForgotten_trace[OF assms(2)] assms(1,3) obtain rs evs0 where
    e: "evs = Posted GetForgottenListRequest (Inr rs) # evs0" and
    rs: "error rs = 0" "keys rs = ks" and
    t: "loopTrace processor (fisherYattesShuffleInPlace rnd ks) 0 evs0 (Inr n)"
    by auto
  have u: "urlFetches evs = urlFetches evs0" and c: "processorCalls evs = processorCalls evs0"
    and v: "verdicts evs = verdicts evs0" and d: "deleteCalls evs = deleteCalls evs0"
    using e by (simp_all add: observers)
  note ok = loopTrace_ok[OF t refl]
  have m: "count_list (fisherYattesShuffleInPlace rnd ks) k = count_list ks k"
    using mset_fisherYattesShuffleInPlace[of rnd ks] by (metis count_mset)
  from ok u m have 1: "count_list (urlFetches evs) k = count_list ks k" by simp
  from ok c m have 2: "count_list (processorCalls evs) k = count_list ks k" by simp
  from loopTrace_deletes[OF t] v d
  have dv: "deleteCalls evs = map fst (filter snd (verdicts evs))" by simp
  then have 3: "count_list (deleteCalls evs) k = count_list (verdicts evs) (k, True)"
    by (simp add: count_list_approved)
  from dv have "length (deleteCalls evs) = length (map fst (filter snd (verdicts evs)))"
    by (rule arg_cong)
  then have "length (deleteCalls evs) = length (filter snd (verdicts evs))"
    by (simp only: length_map)
  with ok d have 4: "n = length (filter snd (verdicts evs))" by simp
  show ?thesis by (rule conjI[OF 1 conjI[OF 2 conjI[OF 3 4]]])
qed

theorem processForgotten_duplicates_witness:
  "fst (processForgotten scripted (always True) (\<lambda>i. 0) (startWorld (scriptFor [''a'', ''a''] 4))) = Inr 2 \<and>
   count_list (urlFetches (issued (startWorld (scriptFor [''a'', ''a''] 4))
      (snd (processForgotten scripted (always True) (\<lambda>i. 0) (startWorld (scriptFor [''a'', ''a''] 4))))))
     ''a'' = 2 \<and>
   count_list (processorCalls (issued (startWorld (scriptFor [''a'', ''a''] 4))
      (snd (processForgotten scripted (always True) (\<lambda>i. 0) (startWorld (scriptFor [''a'', ''a''] 4))))))
     ''a'' = 2 \<and>
   count_list (deleteCalls (issued (startWorld (scriptFor [''a'', ''a''] 4))
      (snd (processForgotten scripted (always True) (\<lambda>i. 0) (startWorld (scriptFor [''a'', ''a''] 4))))))
     ''a'' = 2"
proof -
  have l: "getForgottenList scripted (startWorld (scriptFor [''a'', ''a''] 4)) =
      (Inr [''a'', ''a''], snd (getForgottenList scripted (startWorld (scriptFor [''a'', ''a''] 4))))"
    by code_simp
  have r: "processForgotten scripted (always True) (\<lambda>i. 0) (startWorld (scriptFor [''a'', ''a''] 4)) =
      (Inr 2, snd (processForgotten scripted (always True) (\<lambda>i. 0) (startWorld (scriptFor [''a'', ''a''] 4))))"
    by code_simp
  have v: "verdicts (issued (startWorld (scriptFor [''a'', ''a''] 4))
      (snd (processForgotten scripted (always True) (\<lambda>i. 0) (startWorld (scriptFor [''a'', ''a''] 4))))) =
      [(''a'', True), (''a'', True)]"
    by code_simp
  have c: "count_list [''a'', ''a''] ''a'' = 2" "count_list [(''a'', True), (''a'', True)] (''a'', True) = 2"
    by simp_all
  from r have f: "fst (processForgotten scripted (always True) (\<lambda>i. 0)
      (startWorld (scriptFor [''a'', ''a''] 4))) = Inr 2"
    by (simp add: prod_eq_iff)
  from processForgotten_duplicates[OF l r refl, of "''a''"] v c f
  show ?thesis by simp
qed

text \<open>
  C9. When \<open>processForgotten\<close> fails after the list was fetched, there is a position
  \<open>p\<close> of the shuffled list at which it stopped: the URLs of the keys up to \<open>p\<close>
  were fetched, the keys before \<open>p\<close> have their verdicts, the delete calls made before
  the failing call are exactly the keys before \<open>p\<close> whose verdict was true, every one
  of these calls succeeded, and the failing call is the last one. The trace keeps them:
  nothing is issued after the failure.
\<close>

theorem processForgotten_abort_keeps_deletions:
  assumes "getForgottenList axios_post w = (Inr ks, w1)"
    and "processForgotten axios_post processor rnd w = (Inl f, w')"
    and "evs = issued w w'"
  shows "\<exists>p < length ks.
           urlFetches evs = take (Suc p) (fisherYattesShuffleInPlace rnd ks) \<and>
           map fst (take p (verdicts evs)) = take p (fisherYattesShuffleInPlace rnd ks) \<and>
           length (verdicts evs) \<le> Suc p \<and>
           deleteCalls (butlast evs) = map fst (filter snd (take p (verdicts evs))) \<and>
           (\<forall>ev \<in> set (butlast evs). eventFailure ev = None) \<and>
           eventFailure (last evs) = Some f"
proof -
  from processForgotten_trace[OF assms(2)] assms(1,3) obtain rs evs0 where
    e: "evs = Posted GetForgottenListRequest (Inr rs) # evs0" and
    rs: "error rs = 0" "keys rs = ks" and
    t: "loopTrace processor (fisherYattesShuffleInPlace rnd ks) 0 evs0 (Inl f)"
    by auto
  from loopTrace_failed[OF t refl] have ne: "evs0 \<noteq> []"
    and l: "eventFailure (last evs0) = Some f"
    and b: "\<forall>ev \<in> set (butlast evs0). eventFailure ev = None" by simp_all
  from loopTrace_abort[OF t refl] obtain p where
    p: "p < length (fisherYattesShuffleInPlace rnd ks)"
    "urlFetches evs0 = take (Suc p) (fisherYattesShuffleInPlace rnd ks)"
    "map fst (take p (verdicts evs0)) = take p (fisherYattesShuffleInPlace rnd ks)"
    "length (verdicts evs0) \<le> Suc p"
    "deleteCalls (butlast evs0) = map fst (filter snd (take p (verdicts evs0)))" by blast
  have "p < length ks" using p(1) by (simp add: length_fisherYattesShuffleInPlace)
  moreover have "urlFetches evs = take (Suc p) (fisherYattesShuffleInPlace rnd ks)"
    using p(2) e by (simp add: observers)
  moreover have "map fst (take p (verdicts evs)) = take p (fisherYattesShuffleInPlace rnd ks)"
    using p(3) e by (simp add: observers)
  moreover have "length (verdicts evs) \<le> Suc p"
    using p(4) e by (simp add: observers)
  moreover have "deleteCalls (butlast evs) = map fst (filter snd (take p (verdicts evs)))"
    using p(5) e ne by (simp add: observers)
  moreover have "\<forall>ev \<in> set (butlast evs). eventFailure ev = None"
    using b e ne rs by simp
  moreover have "eventFailure (last evs) = Some f"
    using l e ne by simp
  ultimately show ?thesis by blast
qed

theorem processForgotten_abort_keeps_deletions_witness:
  "fst (processForgotten scripted picky (\<lambda>i. i) (startWorld (scriptFor [''a'', ''b'', ''c''] 4))) =
     Inl (TransportFailure ''ECONNREFUSED'') \<and>
   deleteCalls (butlast (issued (startWorld (scriptFor [''a'', ''b'', ''c''] 4))
      (snd (processForgotten scripted picky (\<lambda>i. i) (startWorld (scriptFor [''a'', ''b'', ''c''] 4)))))) =
     [''a''] \<and>
   (\<exists>p < length [''a'', ''b'', ''c''].
      urlFetches (issued (startWorld (scriptFor [''a'', ''b'', ''c''] 4))
        (snd (processForgotten scripted picky (\<lambda>i. i) (startWorld (scriptFor [''a'', ''b'', ''c''] 4))))) =
        take (Suc p) (fisherYattesShuffleInPlace (\<lambda>i. i) [''a'', ''b'', ''c'']) \<and>
      deleteCalls (butlast (issued (startWorld (scriptFor [''a'', ''b'', ''c''] 4))
        (snd (processForgotten scripted picky (\<lambda>i. i) (startWorld (scriptFor [''a'', ''b'', ''c''] 4)))))) =
        map fst (filter snd (take p (verdicts (issued (startWorld (scriptFor [''a'', ''b'', ''c''] 4))
          (snd (processForgotten scripted picky (\<lambda>i. i) (startWorld (scriptFor [''a'', ''b'', ''c''] 4)))))))))"
proof -
  have l: "getForgottenList scripted (startWorld (scriptFor [''a'', ''b'', ''c''] 4)) =
      (Inr [''a'', ''b'', ''c''],
       snd (getForgottenList scripted (startWorld (scriptFor [''a'', ''b'', ''c''] 4))))"
    by code_simp
  have r: "processForgotten scripted picky (\<lambda>i. i) (startWorld (scriptFor [''a'', ''b'', ''c''] 4)) =
      (Inl (TransportFailure ''ECONNREFUSED''),
       snd (processForgotten scripted picky (\<lambda>i. i) (startWorld (scriptFor [''a'', ''b'', ''c''] 4))))"
    by code_simp
  have d: "deleteCalls (butlast (issued (startWorld (scriptFor [''a'', ''b'', ''c''] 4))
      (snd (processForgotten scripted picky (\<lambda>i. i) (startWorld (scriptFor [''a'', ''b'', ''c''] 4)))))) =
     [''a'']"
    by code_simp
  from r have f: "fst (processForgotten scripted picky (\<lambda>i. i)
      (startWorld (scriptFor [''a'', ''b'', ''c''] 4))) = Inl (TransportFailure ''ECONNREFUSED'')"
    by (simp add: prod_eq_iff)
  from processForgotten_abort_keeps_deletions[OF l r refl] f d
  show ?thesis by blast
qed

subsection \<open>The shuffle as a function of the draws\<close>

lemma nth_swap:
  "i < length xs \<Longrightarrow> j < length xs \<Longrightarrow>
   swap i j xs ! k = (if k = j then xs ! i else if k = i then xs ! j else xs ! k)"
  by (simp add: swap_def nth_list_update)

lemma distinct_swap:
  "i < length xs \<Longrightarrow> j < length xs \<Longrightarrow> distinct (swap i j xs) = distinct xs"
  by (rule mset_eq_imp_distinct_iff) (rule mset_swap)

lemma map_swap:
  "i < length xs \<Longrightarrow> j < length xs \<Longrightarrow> map f (swap i j xs) = swap i j (map f xs)"
  by (simp add: swap_def map_update)

lemma draw_in_range: "Suc i < n \<Longrightarrow> r (Suc i) mod Suc (Suc i) < n"
proof -
  assume "Suc i < n"
  moreover have "r (Suc i) mod Suc (Suc i) < Suc (Suc i)" by simp
  ultimately show ?thesis by linarith
qed

lemma map_fisherYattesLoop:
  "i < length xs \<Longrightarrow> map f (fisherYattesLoop r i xs) = fisherYattesLoop r i (map f xs)"
proof (induction i arbitrary: xs)
  case 0
  then show ?case by simp
next
  case (Suc i)
  from Suc.prems have j: "r (Suc i) mod Suc (Suc i) < length xs" by (rule draw_in_range)
  from Suc.prems have "i < length (swap (Suc i) (r (Suc i) mod Suc (Suc i)) xs)"
    by (simp add: length_swap)
  from Suc.IH[OF this] Suc.prems j show ?case by (simp add: map_swap)
qed

lemma fisherYattesLoop_above:
  "i < length xs \<Longrightarrow> i < k \<Longrightarrow> k < length xs \<Longrightarrow> fisherYattesLoop r i xs ! k = xs ! k"
proof (induction i arbitrary: xs)
  case 0
  then show ?case by simp
next
  case (Suc i)
  define j where "j = r (Suc i) mod Suc (Suc i)"
  have jle: "j < Suc (Suc i)" unfolding j_def by (rule mod_less_divisor) simp
  with Suc.prems have j: "j < length xs" and kj: "k \<noteq> j" and ki: "k \<noteq> Suc i" by linarith+
  from Suc.prems have "i < length (swap (Suc i) j xs)" "i < k" "k < length (swap (Suc i) j xs)"
    by (simp_all add: length_swap)
  from Suc.IH[OF this] have "fisherYattesLoop r i (swap (Suc i) j xs) ! k = swap (Suc i) j xs ! k" .
  also from Suc.prems(1) j kj ki have "\<dots> = xs ! k" by (simp add: nth_swap)
  finally show ?case by (simp add: j_def)
qed

lemma fisherYattesLoop_cong:
  "(\<And>k. k \<le> i \<Longrightarrow> r k = r' k) \<Longrightarrow> fisherYattesLoop r i xs = fisherYattesLoop r' i xs"
  by (induction i arbitrary: xs) simp_all

lemma fisherYattesLoop_reaches:
  "distinct xs \<Longrightarrow> i < length xs \<Longrightarrow> mset ys = mset xs \<Longrightarrow>
   (\<And>k. i < k \<Longrightarrow> k < length xs \<Longrightarrow> ys ! k = xs ! k) \<Longrightarrow>
   \<exists>r. (\<forall>k. r k \<le> k) \<and> fisherYattesLoop r i xs = ys"
proof (induction i arbitrary: xs)
  case 0
  from 0(3) have len: "length ys = length xs" by (rule mset_eq_length)
  have "ys = xs"
  proof (rule nth_equalityI[OF len])
    fix k assume k: "k < length ys"
    show "ys ! k = xs ! k"
    proof (cases k)
      case (Suc k')
      with k len 0(4) show ?thesis by simp
    next
      case 0
      from \<open>0 < length xs\<close> len obtain x xt y yt where c: "xs = x # xt" "ys = y # yt"
        by (cases xs; cases ys) auto
      have "yt = xt"
      proof (rule nth_equalityI)
        from len c show "length yt = length xt" by simp
      next
        fix m assume "m < length yt"
        with "0.prems"(4)[of "Suc m"] len c show "yt ! m = xt ! m" by simp
      qed
      with \<open>mset ys = mset xs\<close> c have "y = x" by simp
      with 0 c show ?thesis by simp
    qed
  qed
  then show ?case by (intro exI[of _ "\<lambda>k. 0"]) simp
next
  case (Suc i)
  from Suc.prems(3) have len: "length ys = length xs" by (rule mset_eq_length)
  from Suc.prems(1) mset_eq_imp_distinct_iff[OF Suc.prems(3)] have dys: "distinct ys" by simp
  from Suc.prems(2) len have "ys ! Suc i \<in> set ys" by simp
  with Suc.prems(3) have "ys ! Suc i \<in> set xs" by (metis set_mset_mset)
  then obtain j where j: "j < length xs" "xs ! j = ys ! Suc i" by (auto simp: in_set_conv_nth)
  have jle: "j \<le> Suc i"
  proof (rule ccontr)
    assume "\<not> j \<le> Suc i"
    then have gt: "Suc i < j" by simp
    with Suc.prems(4)[of j] j have "ys ! j = ys ! Suc i" by simp
    with dys gt j len Suc.prems(2) show False by (simp add: nth_eq_iff_index_eq)
  qed
  let ?xs = "swap (Suc i) j xs"
  from Suc.prems(1,2) j have d: "distinct ?xs" by (simp add: distinct_swap)
  from Suc.prems(2) have i: "i < length ?xs" by (simp add: length_swap)
  from Suc.prems(2,3) j have m: "mset ys = mset ?xs" by (simp add: mset_swap)
  have a: "ys ! k = ?xs ! k" if "i < k" "k < length ?xs" for k
  proof (cases "k = Suc i")
    case True
    with Suc.prems(2) j show ?thesis by (simp add: nth_swap)
  next
    case False
    with that have "Suc i < k" "k < length xs" by (simp_all add: length_swap)
    with Suc.prems(2) Suc.prems(4)[of k] j jle show ?thesis by (simp add: nth_swap)
  qed
  from Suc.IH[OF d i m a] obtain r where r: "\<forall>k. r k \<le> k" "fisherYattesLoop r i ?xs = ys"
    by blast
  let ?r = "r(Suc i := j)"
  from jle have "?r (Suc i) mod Suc (Suc i) = j" by simp
  then have "fisherYattesLoop ?r (Suc i) xs = fisherYattesLoop ?r i ?xs" by simp
  also have "\<dots> = fisherYattesLoop r i ?xs" by (rule fisherYattesLoop_cong) simp
  finally have "fisherYattesLoop ?r (Suc i) xs = ys" using r(2) by simp
  moreover from r(1) jle have "\<forall>k. ?r k \<le> k" by simp
  ultimately show ?case by blast
qed

lemma fisherYattesLoop_draws:
  "distinct xs \<Longrightarrow> i < length xs \<Longrightarrow> \<forall>k. r k \<le> k \<Longrightarrow> \<forall>k. r' k \<le> k \<Longrightarrow>
   fisherYattesLoop r i xs = fisherYattesLoop r' i xs \<Longrightarrow>
   1 \<le> k \<Longrightarrow> k \<le> i \<Longrightarrow> r k = r' k"
proof (induction i arbitrary: xs)
  case 0
  then show ?case by simp
next
  case (Suc i)
  let ?j = "r (Suc i)" and ?j' = "r' (Suc i)"
  from Suc.prems(3,4) have le: "?j \<le> Suc i" "?j' \<le> Suc i" by simp_all
  then have md: "?j mod Suc (Suc i) = ?j" "?j' mod Suc (Suc i) = ?j'" by simp_all
  from le Suc.prems(2) have lt: "?j < length xs" "?j' < length xs" by simp_all
  have eq: "fisherYattesLoop r i (swap (Suc i) ?j xs) = fisherYattesLoop r' i (swap (Suc i) ?j' xs)"
    using Suc.prems(5) md by simp
  have "fisherYattesLoop r i (swap (Suc i) ?j xs) ! Suc i = swap (Suc i) ?j xs ! Suc i"
    using Suc.prems(2) by (intro fisherYattesLoop_above) (simp_all add: length_swap)
  moreover have "fisherYattesLoop r' i (swap (Suc i) ?j' xs) ! Suc i = swap (Suc i) ?j' xs ! Suc i"
    using Suc.prems(2) by (intro fisherYattesLoop_above) (simp_all add: length_swap)
  ultimately have "swap (Suc i) ?j xs ! Suc i = swap (Suc i) ?j' xs ! Suc i" using eq by simp
  with Suc.prems(2) lt have "xs ! ?j = xs ! ?j'" by (simp add: nth_swap split: if_splits)
  with Suc.prems(1) lt have same: "?j = ?j'" by (simp add: nth_eq_iff_index_eq)
  show ?case
  proof (cases "k = Suc i")
    case True
    with same show ?thesis by simp
  next
    case False
    with Suc.prems(7) have k: "k \<le> i" by simp
    from Suc.prems(1,2) lt have d: "distinct (swap (Suc i) ?j xs)" by (simp add: distinct_swap)
    from Suc.prems(2) have i: "i < length (swap (Suc i) ?j xs)" by (simp add: length_swap)
    from eq same have e: "fisherYattesLoop r i (swap (Suc i) ?j xs) =
        fisherYattesLoop r' i (swap (Suc i) ?j xs)" by simp
    from Suc.IH[OF d i Suc.prems(3,4) e Suc.prems(6) k] show ?thesis .
  qed
qed

lemma fisherYattesLoop_reduced:
  "fisherYattesLoop r i xs = fisherYattesLoop (\<lambda>k. r k mod Suc k) i xs"
  by (induction i arbitrary: xs) simp_all

lemma fisherYattesShuffleInPlace_positions:
  "fisherYattesShuffleInPlace r xs = map ((!) xs) (fisherYattesShuffleInPlace r [0..<length xs])"
proof (cases "xs = []")
  case True
  then show ?thesis by (simp add: fisherYattesShuffleInPlace_def)
next
  case False
  then have "length xs - 1 < length [0..<length xs]" by simp
  from map_fisherYattesLoop[OF this, of "(!) xs" r] show ?thesis
    by (simp add: fisherYattesShuffleInPlace_def map_nth)
qed

lemma fisherYattesShuffleInPlace_reaches:
  assumes "distinct xs" and "mset ys = mset xs"
  shows "\<exists>r. (\<forall>k. r k \<le> k) \<and> fisherYattesShuffleInPlace r xs = ys"
proof (cases "xs = []")
  case True
  with assms(2) show ?thesis
    by (intro exI[of _ "\<lambda>k. 0"]) (simp add: fisherYattesShuffleInPlace_def)
next
  case False
  then have "length xs - 1 < length xs" by simp
  from fisherYattesLoop_reaches[OF assms(1) this assms(2)] show ?thesis
    by (simp add: fisherYattesShuffleInPlace_def)
qed

lemma fisherYattesShuffleInPlace_draws:
  assumes "distinct xs" and "\<forall>k. r k \<le> k" and "\<forall>k. r' k \<le> k"
    and "fisherYattesShuffleInPlace r xs = fisherYattesShuffleInPlace r' xs"
    and "1 \<le> k" and "k < length xs"
  shows "r k = r' k"
proof -
  from assms(6) have i: "length xs - 1 < length xs" and k: "k \<le> length xs - 1" by simp_all
  from assms(4) have "fisherYattesLoop r (length xs - 1) xs = fisherYattesLoop r' (length xs - 1) xs"
    by (simp add: fisherYattesShuffleInPlace_def)
  from fisherYattesLoop_draws[OF assms(1) i assms(2,3) this assms(5) k] show ?thesis .
qed

lemma processForgotten_order:
  assumes "getForgottenList axios_post w = (Inr ks, w1)"
    and "processForgotten axios_post processor rnd w = (Inr n, w')"
  shows "processorCalls (issued w w') = fisherYattesShuffleInPlace rnd ks"
proof -
  from processForgotten_trace[OF assms(2)] assms(1) obtain rs evs0 where
    e: "issued w w' = Posted GetForgottenListRequest (Inr rs) # evs0" and
    t: "loopTrace processor (fisherYattesShuffleInPlace rnd ks) 0 evs0 (Inr n)"
    by auto
  from loopTrace_ok[OF t refl] e show ?thesis by (simp add: observers)
qed

text \<open>
  C6. The list handed to the loop of \<open>processForgotten\<close> is the shuffled list, and a
  call that returns a count has invoked the processor on exactly that sequence. The
  shuffle is a permutation of the fetched list, and the same permutation of positions
  whatever the list holds. With the randomness as an input: the draws, reduced into
  their ranges, determine the result; every permutation of the positions is the result
  of some draws within their ranges, and two sequences of such draws with the same
  result agree at every index the loop reads. So the permutations correspond one to one
  to the sequences of draws, and draws that are independent and uniform make every
  permutation equally likely. On a list without repetitions every rearrangement of the
  list itself is reached.
\<close>

theorem fisherYattesShuffleInPlace_uniform:
  "mset (fisherYattesShuffleInPlace rnd xs) = mset xs \<and>
   fisherYattesShuffleInPlace rnd xs =
     map ((!) xs) (fisherYattesShuffleInPlace (\<lambda>i. rnd i mod Suc i) [0..<length xs]) \<and>
   (mset p = mset [0..<length xs] \<longrightarrow>
      (\<exists>r. (\<forall>i. r i \<le> i) \<and> fisherYattesShuffleInPlace r [0..<length xs] = p)) \<and>
   ((\<forall>i. r i \<le> i) \<and> (\<forall>i. r' i \<le> i) \<and>
    fisherYattesShuffleInPlace r [0..<length xs] = fisherYattesShuffleInPlace r' [0..<length xs] \<longrightarrow>
      (\<forall>i. 1 \<le> i \<and> i < length xs \<longrightarrow> r i = r' i)) \<and>
   (distinct xs \<and> mset ys = mset xs \<longrightarrow>
      (\<exists>r. (\<forall>i. r i \<le> i) \<and> fisherYattesShuffleInPlace r xs = ys)) \<and>
   (getForgottenList axios_post w = (Inr xs, wl) \<and>
    processForgotten axios_post processor rnd w = (Inr n, w') \<longrightarrow>
      processorCalls (issued w w') = fisherYattesShuffleInPlace rnd xs)"
proof -
  have 1: "mset (fisherYattesShuffleInPlace rnd xs) = mset xs"
    by (rule mset_fisherYattesShuffleInPlace)
  have "fisherYattesShuffleInPlace rnd [0..<length xs] =
      fisherYattesShuffleInPlace (\<lambda>i. rnd i mod Suc i) [0..<length xs]"
    unfolding fisherYattesShuffleInPlace_def by (rule fisherYattesLoop_reduced)
  with fisherYattesShuffleInPlace_positions[of rnd xs]
  have 2: "fisherYattesShuffleInPlace rnd xs =
     map ((!) xs) (fisherYattesShuffleInPlace (\<lambda>i. rnd i mod Suc i) [0..<length xs])"
    by simp
  have 3: "mset p = mset [0..<length xs] \<longrightarrow>
      (\<exists>r. (\<forall>i. r i \<le> i) \<and> fisherYattesShuffleInPlace r [0..<length xs] = p)"
  proof
    assume "mset p = mset [0..<length xs]"
    then show "\<exists>r. (\<forall>i. r i \<le> i) \<and> fisherYattesShuffleInPlace r [0..<length xs] = p"
      by (intro fisherYattesShuffleInPlace_reaches) simp_all
  qed
  have 4: "(\<forall>i. r i \<le> i) \<and> (\<forall>i. r' i \<le> i) \<and>
    fisherYattesShuffleInPlace r [0..<length xs] = fisherYattesShuffleInPlace r' [0..<length xs] \<longrightarrow>
      (\<forall>i. 1 \<le> i \<and> i < length xs \<longrightarrow> r i = r' i)"
  proof (intro impI allI, elim conjE)
    fix i
    assume "\<forall>i. r i \<le> i" "\<forall>i. r' i \<le> i"
      "fisherYattesShuffleInPlace r [0..<length xs] = fisherYattesShuffleInPlace r' [0..<length xs]"
      "1 \<le> i" "i < length xs"
    then show "r i = r' i"
      by (intro fisherYattesShuffleInPlace_draws[of "[0..<length xs]" r r' i]) simp_all
  qed
  have 5: "distinct xs \<and> mset ys = mset xs \<longrightarrow>
      (\<exists>r. (\<forall>i. r i \<le> i) \<and> fisherYattesShuffleInPlace r xs = ys)"
    using fisherYattesShuffleInPlace_reaches[of xs ys] by blast
  have 6: "getForgottenList axios_post w = (Inr xs, wl) \<and>
    processForgotten axios_post processor rnd w = (Inr n, w') \<longrightarrow>
      processorCalls (issued w w') = fisherYattesShuffleInPlace rnd xs"
    using processForgotten_order[of axios_post w xs wl processor rnd n w'] by blast
  show ?thesis by (rule conjI[OF 1 conjI[OF 2 conjI[OF 3 conjI[OF 4 conjI[OF 5 6]]]]])
qed

theorem fisherYattesShuffleInPlace_uniform_witness:
  "fisherYattesShuffleInPlace (\<lambda>i. 0) [''a'', ''b'', ''c''] = [''b'', ''c'', ''a''] \<and>
   (\<exists>r. (\<forall>i. r i \<le> i) \<and> fisherYattesShuffleInPlace r [0..<length [''a'', ''b'', ''c'']] = [2, 0, 1]) \<and>
   (\<lambda>i. 0 :: nat) 1 = (\<lambda>i. if i < 3 then 0 else i) 1 \<and>
   (\<lambda>i. 0 :: nat) 2 = (\<lambda>i. if i < 3 then 0 else i) 2 \<and>
   (\<exists>r. (\<forall>i. r i \<le> i) \<and> fisherYattesShuffleInPlace r [''a'', ''b'', ''c''] = [''c'', ''a'', ''b'']) \<and>
   processorCalls (issued (startWorld (scriptFor [''a'', ''b'', ''c''] 5))
      (snd (processForgotten scripted picky (\<lambda>i. 0) (startWorld (scriptFor [''a'', ''b'', ''c''] 5))))) =
     fisherYattesShuffleInPlace (\<lambda>i. 0) [''a'', ''b'', ''c'']"
proof -
  note u = fisherYattesShuffleInPlace_uniform[where xs = "[''a'', ''b'', ''c'']"
      and rnd = "\<lambda>i. 0" and p = "[2, 0, 1]" and r = "\<lambda>i. 0"
      and r' = "\<lambda>i. if i < 3 then 0 else i" and ys = "[''c'', ''a'', ''b'']"
      and axios_post = scripted and processor = picky
      and w = "startWorld (scriptFor [''a'', ''b'', ''c''] 5)"
      and wl = "snd (getForgottenList scripted (startWorld (scriptFor [''a'', ''b'', ''c''] 5)))"
      and n = 2
      and w' = "snd (processForgotten scripted picky (\<lambda>i. 0)
                  (startWorld (scriptFor [''a'', ''b'', ''c''] 5)))"]
  have l3: "getForgottenList scripted (startWorld (scriptFor [''a'', ''b'', ''c''] 5)) =
      (Inr [''a'', ''b'', ''c''],
       snd (getForgottenList scripted (startWorld (scriptFor [''a'', ''b'', ''c''] 5))))"
    by code_simp
  have r3: "processForgotten scripted picky (\<lambda>i. 0) (startWorld (scriptFor [''a'', ''b'', ''c''] 5)) =
      (Inr 2, snd (processForgotten scripted picky (\<lambda>i. 0) (startWorld (scriptFor [''a'', ''b'', ''c''] 5))))"
    by code_simp
  have s: "fisherYattesShuffleInPlace (\<lambda>i. 0) [''a'', ''b'', ''c''] = [''b'', ''c'', ''a'']"
    by code_simp
  have p: "mset [2, 0, 1] = mset [0..<length [''a'', ''b'', ''c'']]"
    by (simp add: upt_rec)
  have v: "(\<forall>i. (\<lambda>i. 0 :: nat) i \<le> i) \<and> (\<forall>i. (\<lambda>i. if i < 3 then 0 else i :: nat) i \<le> i)"
    by simp
  have e: "fisherYattesShuffleInPlace (\<lambda>i. 0) [0..<length [''a'', ''b'', ''c'']] =
      fisherYattesShuffleInPlace (\<lambda>i. if i < 3 then 0 else i) [0..<length [''a'', ''b'', ''c'']]"
    by code_simp
  have d: "distinct [''a'', ''b'', ''c''] \<and> mset [''c'', ''a'', ''b''] = mset [''a'', ''b'', ''c'']"
    by simp
  from u[THEN conjunct2, THEN conjunct2, THEN conjunct1, rule_format, OF p]
  have a: "\<exists>r. (\<forall>i. r i \<le> i) \<and> fisherYattesShuffleInPlace r [0..<length [''a'', ''b'', ''c'']] = [2, 0, 1]" .
  from u[THEN conjunct2, THEN conjunct2, THEN conjunct2, THEN conjunct1] v e
  have b0: "\<forall>i. 1 \<le> i \<and> i < length [''a'', ''b'', ''c''] \<longrightarrow>
        (\<lambda>i. 0 :: nat) i = (\<lambda>i. if i < 3 then 0 else i) i"
    by blast
  from b0[rule_format, of 1] b0[rule_format, of 2]
  have b: "(\<lambda>i. 0 :: nat) 1 = (\<lambda>i. if i < 3 then 0 else i) 1 \<and>
      (\<lambda>i. 0 :: nat) 2 = (\<lambda>i. if i < 3 then 0 else i) 2"
    by simp
  from u[THEN conjunct2, THEN conjunct2, THEN conjunct2, THEN conjunct2, THEN conjunct1] d
  have c: "\<exists>r. (\<forall>i. r i \<le> i) \<and> fisherYattesShuffleInPlace r [''a'', ''b'', ''c''] = [''c'', ''a'', ''b'']"
    by blast
  from u[THEN conjunct2, THEN conjunct2, THEN conjunct2, THEN conjunct2, THEN conjunct2] l3 r3
  have o: "processorCalls (issued (startWorld (scriptFor [''a'', ''b'', ''c''] 5))
      (snd (processForgotten scripted picky (\<lambda>i. 0) (startWorld (scriptFor [''a'', ''b'', ''c''] 5))))) =
     fisherYattesShuffleInPlace (\<lambda>i. 0) [''a'', ''b'', ''c'']"
    by blast
  from s a b c o show ?thesis by blast
qed

subsection \<open>One refresh of the poller\<close>

lemma pollOnce_failed:
  "fst (getLicense axios_post (snd t)) = Inl e \<Longrightarrow> pollOnce axios_post svc t = svc"
  by (cases "getLicense axios_post (snd t)") (simp add: pollOnce_def refresh_def)

lemma pollOnce_succeeded:
  "fst (getLicense axios_post (snd t)) = Inr v \<Longrightarrow>
   getLatestLicence (pollOnce axios_post svc t) = Some v"
  by (cases "getLicense axios_post (snd t)")
     (simp add: pollOnce_def refresh_def getLatestLicence_def latest_def)

lemma pollLoop_failed:
  "\<forall>t \<in> set ticks. \<exists>e. fst (getLicense axios_post (snd t)) = Inl e \<Longrightarrow>
   pollLoop axios_post svc ticks = svc"
  unfolding pollLoop_def
  by (induction ticks arbitrary: svc) (auto simp: pollOnce_failed)

text \<open>
  C7. The polled licence. A new service has no licence. Over any stretch of refreshes
  that all fail, \<open>getLatestLicence\<close> stays what it was: absent for a new service, and
  a cached value is neither cleared nor replaced. After a refresh that succeeded with
  \<open>v\<close>, followed by refreshes that all fail, \<open>getLatestLicence\<close> is \<open>v\<close>,
  whatever happened before.
\<close>

theorem getLatestLicence_polled:
  "getLatestLicence (new_OnlyOfficeService periodMS) = None \<and>
   ((\<forall>t \<in> set ticks. \<exists>e. fst (getLicense axios_post (snd t)) = Inl e) \<longrightarrow>
      getLatestLicence (pollLoop axios_post (new_OnlyOfficeService periodMS) ticks) = None \<and>
      getLatestLicence (pollLoop axios_post svc ticks) = getLatestLicence svc) \<and>
   (fst (getLicense axios_post (snd t)) = Inr v \<and>
    (\<forall>t' \<in> set later. \<exists>e. fst (getLicense axios_post (snd t')) = Inl e) \<longrightarrow>
      getLatestLicence (pollLoop axios_post svc (earlier @ t # later)) = Some v)"
proof -
  have 1: "getLatestLicence (new_OnlyOfficeService periodMS) = None"
    by (simp add: getLatestLicence_def latest_def new_OnlyOfficeService_def
          new_PolledThingieValue_def)
  have 2: "(\<forall>t \<in> set ticks. \<exists>e. fst (getLicense axios_post (snd t)) = Inl e) \<longrightarrow>
      getLatestLicence (pollLoop axios_post (new_OnlyOfficeService periodMS) ticks) = None \<and>
      getLatestLicence (pollLoop axios_post svc ticks) = getLatestLicence svc"
  proof
    assume f: "\<forall>t \<in> set ticks. \<exists>e. fst (getLicense axios_post (snd t)) = Inl e"
    from pollLoop_failed[OF f] 1
    show "getLatestLicence (pollLoop axios_post (new_OnlyOfficeService periodMS) ticks) = None \<and>
      getLatestLicence (pollLoop axios_post svc ticks) = getLatestLicence svc"
      by simp
  qed
  have 3: "fst (getLicense axios_post (snd t)) = Inr v \<and>
    (\<forall>t' \<in> set later. \<exists>e. fst (getLicense axios_post (snd t')) = Inl e) \<longrightarrow>
      getLatestLicence (pollLoop axios_post svc (earlier @ t # later)) = Some v"
  proof (intro impI, elim conjE)
    assume ok: "fst (getLicense axios_post (snd t)) = Inr v"
      and f: "\<forall>t' \<in> set later. \<exists>e. fst (getLicense axios_post (snd t')) = Inl e"
    have "pollLoop axios_post svc (earlier @ t # later) =
        pollLoop axios_post (pollOnce axios_post (pollLoop axios_post svc earlier) t) later"
      by (simp add: pollLoop_def)
    also have "\<dots> = pollOnce axios_post (pollLoop axios_post svc earlier) t"
      by (rule pollLoop_failed[OF f])
    finally show "getLatestLicence (pollLoop axios_post svc (earlier @ t # later)) = Some v"
      by (simp add: pollOnce_succeeded[OF ok])
  qed
  show ?thesis by (rule conjI[OF 1 conjI[OF 2 3]])
qed

theorem getLatestLicence_polled_witness:
  "getLatestLicence (pollLoop scripted (new_OnlyOfficeService 1000)
     [(20, startWorld []), (30, startWorld [Inr (okResponse\<lparr>error := 3\<rparr>)])]) = None \<and>
   getLatestLicence (pollLoop scripted (new_OnlyOfficeService 1000)
     ([] @ (10, startWorld [Inr (okResponse\<lparr>license := JString ''L1''\<rparr>)]) #
      [(20, startWorld []), (30, startWorld [Inr (okResponse\<lparr>error := 3\<rparr>)])])) =
     Some (okResponse\<lparr>license := JString ''L1''\<rparr>)"
proof -
  have ok: "fst (getLicense scripted (snd (10 :: nat, startWorld [Inr (okResponse\<lparr>license := JString ''L1''\<rparr>)]))) =
      Inr (okResponse\<lparr>license := JString ''L1''\<rparr>)"
    by code_simp
  have f1: "fst (getLicense scripted (startWorld [])) = Inl (TransportFailure ''ECONNREFUSED'')"
    by code_simp
  have f2: "fst (getLicense scripted (startWorld [Inr (okResponse\<lparr>error := 3\<rparr>)])) =
      Inl (CommandFailure (new_CommandError 3 LicenseRequest (okResponse\<lparr>error := 3\<rparr>)))"
    by code_simp
  from f1 f2 have f: "\<forall>t \<in> set [(20 :: nat, startWorld []), (30, startWorld [Inr (okResponse\<lparr>error := 3\<rparr>)])].
      \<exists>e. fst (getLicense scripted (snd t)) = Inl e"
    by simp
  note u = getLatestLicence_polled[where axios_post = scripted and periodMS = 1000
      and svc = "new_OnlyOfficeService 1000"
      and ticks = "[(20, startWorld []), (30, startWorld [Inr (okResponse\<lparr>error := 3\<rparr>)])]"
      and later = "[(20, startWorld []), (30, startWorld [Inr (okResponse\<lparr>error := 3\<rparr>)])]"
      and earlier = "[]"
      and t = "(10, startWorld [Inr (okResponse\<lparr>license := JString ''L1''\<rparr>)])"
      and v = "okResponse\<lparr>license := JString ''L1''\<rparr>"]
  from u[THEN conjunct2, THEN conjunct1] f
  have a: "getLatestLicence (pollLoop scripted (new_OnlyOfficeService 1000)
     [(20, startWorld []), (30, startWorld [Inr (okResponse\<lparr>error := 3\<rparr>)])]) = None"
    by blast
  from u[THEN conjunct2, THEN conjunct2] ok f
  have b: "getLatestLicence (pollLoop scripted (new_OnlyOfficeService 1000)
     ([] @ (10, startWorld [Inr (okResponse\<lparr>license := JString ''L1''\<rparr>)]) #
      [(20, startWorld []), (30, startWorld [Inr (okResponse\<lparr>error := 3\<rparr>)])])) =
     Some (okResponse\<lparr>license := JString ''L1''\<rparr>)"
    by blast
  from a b show ?thesis by blast
qed

end
